theory Spec2Isabelle
  imports Main
begin

section \<open>Strings and exceptions\<close>

text \<open>\<^verbatim>\<open>s.indexOf(c)\<close> for a single character: the first index, \<open>None\<close> for \<open>-1\<close>.\<close>

fun indexOf :: "'a \<Rightarrow> 'a list \<Rightarrow> nat option" where
  "indexOf c [] = None"
| "indexOf c (x # xs) = (if x = c then Some 0 else map_option Suc (indexOf c xs))"

text \<open>\<^verbatim>\<open>s.split(c)\<close> for a single character separator; it never returns the empty array.\<close>

fun split_on :: "'a \<Rightarrow> 'a list \<Rightarrow> 'a list list" where
  "split_on c [] = [[]]"
| "split_on c (x # xs) =
     (if x = c then [] # split_on c xs
      else (case split_on c xs of [] \<Rightarrow> [[x]] | l # ls \<Rightarrow> (x # l) # ls))"

text \<open>
  What a call can throw: the \<open>TypeError\<close> of a property read on \<open>null\<close>, or whatever a
  function supplied by the caller throws.
\<close>

datatype error = TypeError | Thrown string

section \<open>process/exec-streaming.ts\<close>

subsection \<open>Buffers and their text\<close>

text \<open>
  A \<open>Buffer\<close> is a list of bytes, numbers below 256. The text of this module is a list of
  16-bit code units, numbers below 65536, so that the replacement character \<open>U+FFFD\<close> of a
  decoder can be written. No arithmetic is done on either. \<open>str\<close> is the text of an ASCII
  literal.
\<close>

type_synonym byte = nat
type_synonym code_unit = nat
type_synonym jsstring = "code_unit list"

definition NL :: code_unit where
  "NL = 0x0A"

definition str :: "string \<Rightarrow> jsstring" where
  "str s = map of_char s"

text \<open>The bytes of an ASCII literal.\<close>

definition bytes :: "string \<Rightarrow> byte list" where
  "bytes s = map of_char s"

text \<open>
  \<^verbatim>\<open>chunk.toString()\<close> is the runtime's and is a parameter of the model. \<open>utf8_toString\<close> is
  the decoder it stands for, after the UTF-8 decoder of the Encoding Standard: a well-formed
  sequence gives its code point (two code units above \<open>U+FFFF\<close>), and every maximal
  ill-formed part gives one \<open>U+FFFD\<close>.
\<close>

definition REPLACEMENT :: code_unit where
  "REPLACEMENT = 0xFFFD"

definition code_point_units :: "nat \<Rightarrow> jsstring" where
  "code_point_units cp =
     (if cp < 0x10000 then [cp]
      else [0xD800 + (cp - 0x10000) div 0x400, 0xDC00 + (cp - 0x10000) mod 0x400])"

text \<open>Whether the byte may follow the lead byte \<open>lead\<close> as the second byte of a sequence.\<close>

definition second_ok :: "nat \<Rightarrow> nat \<Rightarrow> bool" where
  "second_ok lead b =
     (if lead = 0xE0 then 0xA0 \<le> b \<and> b \<le> 0xBF
      else if lead = 0xED then 0x80 \<le> b \<and> b \<le> 0x9F
      else if lead = 0xF0 then 0x90 \<le> b \<and> b \<le> 0xBF
      else if lead = 0xF4 then 0x80 \<le> b \<and> b \<le> 0x8F
      else 0x80 \<le> b \<and> b \<le> 0xBF)"

definition continuation :: "nat \<Rightarrow> bool" where
  "continuation b = (0x80 \<le> b \<and> b \<le> 0xBF)"

fun utf8_toString :: "byte list \<Rightarrow> jsstring" where
  "utf8_toString [] = []"
| "utf8_toString (b # bs) =
     (if b < 0x80 then b # utf8_toString bs
      else if 0xC2 \<le> b \<and> b \<le> 0xDF then
        (case bs of
           b1 # r1 \<Rightarrow>
             if continuation b1
             then code_point_units ((b - 0xC0) * 0x40 + (b1 - 0x80)) @ utf8_toString r1
             else REPLACEMENT # utf8_toString bs
         | [] \<Rightarrow> [REPLACEMENT])
      else if 0xE0 \<le> b \<and> b \<le> 0xEF then
        (case bs of
           b1 # r1 \<Rightarrow>
             if second_ok b b1 then
               (case r1 of
                  b2 # r2 \<Rightarrow>
                    if continuation b2
                    then code_point_units
                           ((b - 0xE0) * 0x1000 + (b1 - 0x80) * 0x40 + (b2 - 0x80)) @ utf8_toString r2
                    else REPLACEMENT # utf8_toString r1
                | [] \<Rightarrow> [REPLACEMENT])
             else REPLACEMENT # utf8_toString bs
         | [] \<Rightarrow> [REPLACEMENT])
      else if 0xF0 \<le> b \<and> b \<le> 0xF4 then
        (case bs of
           b1 # r1 \<Rightarrow>
             if second_ok b b1 then
               (case r1 of
                  b2 # r2 \<Rightarrow>
                    if continuation b2 then
                      (case r2 of
                         b3 # r3 \<Rightarrow>
                           if continuation b3
                           then code_point_units
                                  ((b - 0xF0) * 0x40000 + (b1 - 0x80) * 0x1000 +
                                   (b2 - 0x80) * 0x40 + (b3 - 0x80)) @ utf8_toString r3
                           else REPLACEMENT # utf8_toString r2
                       | [] \<Rightarrow> [REPLACEMENT])
                    else REPLACEMENT # utf8_toString r1
                | [] \<Rightarrow> [REPLACEMENT])
             else REPLACEMENT # utf8_toString bs
         | [] \<Rightarrow> [REPLACEMENT])
      else REPLACEMENT # utf8_toString bs)"

subsection \<open>\<open>runCommandStreaming\<close>\<close>

text \<open>
  \<open>runCommandStreaming\<close> registers handlers on the child process and returns a promise.
  The model is a state machine over the events the child emits. Its state holds the three
  variables of the promise executor's closure (\<open>stderr\<close>, \<open>lineBuffer\<close>, \<open>settled\<close>), the
  timer, \<open>child.killed\<close>, and the trace of what the handlers do: the calls of
  \<open>onStdoutLine\<close>, the exceptions that leave a handler, and the calls of \<open>resolve\<close> and
  \<open>reject\<close>, in order. No handler catches what \<open>onStdoutLine\<close> throws: the exception
  ends the handler, and the closure is left as it is at that point. What the runtime does
  with the exception is not this module's; the model goes on with the next event.
\<close>

datatype SpawnResult =
  SpawnResult (stdout: jsstring) (res_stderr: jsstring) (code: "int option")
    (signal: "string option") (killed: bool)

datatype action =
    OnStdoutLine jsstring
  | Uncaught error \<comment> \<open>an exception thrown by \<open>onStdoutLine\<close> leaves the handler\<close>
  | Resolve SpawnResult
  | Reject string

datatype child_event =
    StdoutData "byte list" \<comment> \<open>\<open>child.stdout\<close> 'data' with its chunk\<close>
  | StderrData "byte list" \<comment> \<open>\<open>child.stderr\<close> 'data' with its chunk\<close>
  | SpawnError string \<comment> \<open>\<open>child\<close> 'error'\<close>
  | Close "int option" "string option" \<comment> \<open>\<open>child\<close> 'close' with code and signal\<close>
  | TimerFired bool \<comment> \<open>the timeout elapsed; the flag says whether \<open>kill\<close> delivered the signal\<close>

record exec_state =
  stderr :: jsstring
  lineBuffer :: jsstring
  settled :: bool
  timer :: bool \<comment> \<open>the timeout is pending (set by \<open>setTimeout\<close>, cleared by \<open>clearTimeout\<close>)\<close>
  child_killed :: bool
  trace :: "action list"

definition exec_init :: exec_state where
  "exec_init = \<lparr>stderr = [], lineBuffer = [], settled = False, timer = True,
                 child_killed = False, trace = []\<rparr>"

text \<open>The lines \<open>onStdoutLine\<close> was called with, in order.\<close>

fun stdout_lines :: "action list \<Rightarrow> jsstring list" where
  "stdout_lines [] = []"
| "stdout_lines (OnStdoutLine l # tr) = l # stdout_lines tr"
| "stdout_lines (_ # tr) = stdout_lines tr"

text \<open>
  \<open>onStdoutLine\<close> is the caller's function: a call returns or throws, and which of the two
  may depend on the calls made before. It is a parameter of the model, a function of the
  lines passed so far and the line passed now; \<open>None\<close> is a normal return.
\<close>

type_synonym line_callback = "jsstring list \<Rightarrow> jsstring \<Rightarrow> error option"

text \<open>
  The \<^verbatim>\<open>while ((newlineIdx = lineBuffer.indexOf("\n")) !== -1)\<close> loop of the stdout handler,
  on the pair of the buffer and the trace. The buffer is cut before the callback is called,
  so an exception leaves the rest of the buffer in place and ends the handler.
\<close>

lemma indexOf_less: "indexOf c xs = Some i \<Longrightarrow> i < length xs"
  by (induction xs arbitrary: i) (auto split: if_splits)

function stdout_loop :: "line_callback \<Rightarrow> jsstring \<times> action list \<Rightarrow> jsstring \<times> action list" where
  "stdout_loop onStdoutLine (buf, tr) =
     (case indexOf NL buf of
        None \<Rightarrow> (buf, tr)
      | Some newlineIdx \<Rightarrow>
          (let line = take newlineIdx buf;
               buf' = drop (newlineIdx + 1) buf
           in if length line > 0 then
                (case onStdoutLine (stdout_lines tr) line of
                   None \<Rightarrow> stdout_loop onStdoutLine (buf', tr @ [OnStdoutLine line])
                 | Some e \<Rightarrow> (buf', tr @ [OnStdoutLine line, Uncaught e]))
              else stdout_loop onStdoutLine (buf', tr)))"
  by pat_completeness auto
termination
  by (relation "measure (\<lambda>(cb, buf, tr). length buf)") (auto dest: indexOf_less)

declare stdout_loop.simps [simp del]

definition on_stdout_data ::
  "(byte list \<Rightarrow> jsstring) \<Rightarrow> line_callback \<Rightarrow> byte list \<Rightarrow> exec_state \<Rightarrow> exec_state" where
  "on_stdout_data toString onStdoutLine chunk s =
     (let (buf, tr) = stdout_loop onStdoutLine (lineBuffer s @ toString chunk, trace s)
      in s\<lparr>lineBuffer := buf, trace := tr\<rparr>)"

definition on_stderr_data :: "(byte list \<Rightarrow> jsstring) \<Rightarrow> byte list \<Rightarrow> exec_state \<Rightarrow> exec_state" where
  "on_stderr_data toString d s = s\<lparr>stderr := stderr s @ toString d\<rparr>"

definition on_error :: "string \<Rightarrow> exec_state \<Rightarrow> exec_state" where
  "on_error err s =
     (if settled s then s
      else s\<lparr>settled := True, timer := False, trace := trace s @ [Reject err]\<rparr>)"

text \<open>
  The close handler sets \<open>settled\<close> and clears the timer, then flushes a non-empty buffer
  to the callback, then resolves. An exception of the callback leaves the handler before
  the buffer is emptied and before \<open>resolve\<close> is called.
\<close>

definition on_close ::
  "line_callback \<Rightarrow> int option \<Rightarrow> string option \<Rightarrow> exec_state \<Rightarrow> exec_state" where
  "on_close onStdoutLine c sg s =
     (if settled s then s
      else
        (let s1 = s\<lparr>settled := True, timer := False\<rparr> in
         if length (lineBuffer s1) > 0 then
           (case onStdoutLine (stdout_lines (trace s1)) (lineBuffer s1) of
              Some e \<Rightarrow> s1\<lparr>trace := trace s1 @ [OnStdoutLine (lineBuffer s1), Uncaught e]\<rparr>
            | None \<Rightarrow>
                (let s2 = s1\<lparr>trace := trace s1 @ [OnStdoutLine (lineBuffer s1)], lineBuffer := []\<rparr>
                 in s2\<lparr>trace := trace s2 @
                      [Resolve (SpawnResult [] (stderr s2) c sg (child_killed s2))]\<rparr>))
         else s1\<lparr>trace := trace s1 @
                [Resolve (SpawnResult [] (stderr s1) c sg (child_killed s1))]\<rparr>))"

definition on_timer :: "bool \<Rightarrow> exec_state \<Rightarrow> exec_state" where
  "on_timer delivered s =
     (if timer s then s\<lparr>timer := False, child_killed := (child_killed s \<or> delivered)\<rparr> else s)"

fun exec_step ::
  "(byte list \<Rightarrow> jsstring) \<Rightarrow> line_callback \<Rightarrow> exec_state \<Rightarrow> child_event \<Rightarrow> exec_state" where
  "exec_step toString onStdoutLine s (StdoutData chunk) = on_stdout_data toString onStdoutLine chunk s"
| "exec_step toString onStdoutLine s (StderrData d) = on_stderr_data toString d s"
| "exec_step toString onStdoutLine s (SpawnError err) = on_error err s"
| "exec_step toString onStdoutLine s (Close c sg) = on_close onStdoutLine c sg s"
| "exec_step toString onStdoutLine s (TimerFired delivered) = on_timer delivered s"

definition runCommandStreaming ::
  "(byte list \<Rightarrow> jsstring) \<Rightarrow> line_callback \<Rightarrow> child_event list \<Rightarrow> exec_state" where
  "runCommandStreaming toString onStdoutLine evs =
     foldl (exec_step toString onStdoutLine) exec_init evs"

text \<open>Projections of an event list and of a trace, used to state the properties.\<close>

fun stdout_chunks :: "child_event list \<Rightarrow> byte list list" where
  "stdout_chunks [] = []"
| "stdout_chunks (StdoutData c # evs) = c # stdout_chunks evs"
| "stdout_chunks (_ # evs) = stdout_chunks evs"

fun stderr_chunks :: "child_event list \<Rightarrow> byte list list" where
  "stderr_chunks [] = []"
| "stderr_chunks (StderrData c # evs) = c # stderr_chunks evs"
| "stderr_chunks (_ # evs) = stderr_chunks evs"

fun terminal :: "child_event \<Rightarrow> bool" where
  "terminal (SpawnError _) = True"
| "terminal (Close _ _) = True"
| "terminal _ = False"

fun settlements :: "action list \<Rightarrow> action list" where
  "settlements [] = []"
| "settlements (Resolve r # tr) = Resolve r # settlements tr"
| "settlements (Reject e # tr) = Reject e # settlements tr"
| "settlements (_ # tr) = settlements tr"

text \<open>What the first terminal event settles the promise with, in the state it arrives in.\<close>

fun settle_outcome :: "exec_state \<Rightarrow> child_event \<Rightarrow> action list" where
  "settle_outcome s (SpawnError err) = [Reject err]"
| "settle_outcome s (Close c sg) = [Resolve (SpawnResult [] (stderr s) c sg (child_killed s))]"
| "settle_outcome s _ = []"

text \<open>
  A chunk of whole characters: a sequence of well-formed UTF-8 sequences, none of them cut
  short by the end of the chunk.
\<close>

fun whole_characters :: "byte list \<Rightarrow> bool" where
  "whole_characters [] = True"
| "whole_characters (b # bs) =
     (if b < 0x80 then whole_characters bs
      else if 0xC2 \<le> b \<and> b \<le> 0xDF then
        (case bs of
           b1 # r1 \<Rightarrow> continuation b1 \<and> whole_characters r1
         | _ \<Rightarrow> False)
      else if 0xE0 \<le> b \<and> b \<le> 0xEF then
        (case bs of
           b1 # b2 # r2 \<Rightarrow> second_ok b b1 \<and> continuation b2 \<and> whole_characters r2
         | _ \<Rightarrow> False)
      else if 0xF0 \<le> b \<and> b \<le> 0xF4 then
        (case bs of
           b1 # b2 # b3 # r3 \<Rightarrow>
             second_ok b b1 \<and> continuation b2 \<and> continuation b3 \<and> whole_characters r3
         | _ \<Rightarrow> False)
      else False)"

text \<open>A callback that never throws.\<close>

definition never_throws :: "line_callback \<Rightarrow> bool" where
  "never_throws onStdoutLine = (\<forall>before line. onStdoutLine before line = None)"

text \<open>
  The lines of an output as the specification words them: the pieces between newlines, the
  piece after the last newline counting only when it is not empty.
\<close>

definition claimed_lines :: "jsstring \<Rightarrow> jsstring list" where
  "claimed_lines out =
     (let parts = split_on NL out
      in butlast parts @ (if last parts = [] then [] else [last parts]))"

text \<open>The same pieces without the empty ones.\<close>

definition nonempty_lines :: "jsstring \<Rightarrow> jsstring list" where
  "nonempty_lines out = filter (\<lambda>l. l \<noteq> []) (split_on NL out)"

definition complete_lines :: "jsstring \<Rightarrow> jsstring list" where
  "complete_lines out = filter (\<lambda>l. l \<noteq> []) (butlast (split_on NL out))"

text \<open>The result of the last resolution in a trace (a result with a marker where there is none).\<close>

fun last_result :: "action list \<Rightarrow> SpawnResult" where
  "last_result [] = SpawnResult (str ''no resolution'') [] None None False"
| "last_result (Resolve r # tr) =
     (if list_ex (\<lambda>a. case a of Resolve _ \<Rightarrow> True | _ \<Rightarrow> False) tr then last_result tr else r)"
| "last_result (_ # tr) = last_result tr"

subsection \<open>Example callbacks\<close>

text \<open>
  A callback that returns on every line, and one that throws on the line \<open>null\<close>, as
  \<open>handleLine\<close> of the accumulator below does.
\<close>

definition returning_callback :: line_callback where
  "returning_callback before line = None"

definition throws_on_null :: line_callback where
  "throws_on_null before line = (if line = str ''null'' then Some TypeError else None)"

section \<open>agents/cli-runner/stream-json-parser.ts\<close>

subsection \<open>JSON values\<close>

text \<open>
  The values \<^verbatim>\<open>JSON.parse\<close> returns. Numbers are never inspected by this code, so their
  type is a parameter. An object is the list of its own properties in enumeration order.
  \<open>undefined\<close> is \<open>None\<close> in a \<open>json option\<close>.
\<close>

datatype 'n json =
    JNull
  | JBool bool
  | JNum 'n
  | JStr string
  | JArr "'n json list"
  | JObj "(string \<times> 'n json) list"

text \<open>
  \<^verbatim>\<open>v.key\<close> on a value that is neither \<open>null\<close> nor \<open>undefined\<close>. None of the keys this
  code reads is a property of a prototype, so only an object's own properties answer.
\<close>

fun property :: "'n json \<Rightarrow> string \<Rightarrow> 'n json option" where
  "property (JObj kvs) k = map_of kvs k"
| "property _ k = None"

text \<open>\<^verbatim>\<open>v && typeof v === "object"\<close>: an object or an array (\<open>null\<close> is falsy).\<close>

fun is_object :: "'n json option \<Rightarrow> bool" where
  "is_object (Some (JObj _)) = True"
| "is_object (Some (JArr _)) = True"
| "is_object _ = False"

text \<open>\<^verbatim>\<open>a ?? b\<close>\<close>

definition nullish :: "'n json option \<Rightarrow> bool" where
  "nullish v = (v = None \<or> v = Some JNull)"

definition coalesce :: "'n json option \<Rightarrow> 'n json option \<Rightarrow> 'n json option" where
  "coalesce a b = (if nullish a then b else a)"

subsection \<open>\<^verbatim>\<open>JSON.stringify\<close> on a parsed value\<close>

text \<open>
  The serialisation of ECMA-262 (\<open>SerializeJSONProperty\<close> with no replacer and no gap), for
  the values above; the rendering of a number is a parameter.
\<close>

definition hex_digit :: "nat \<Rightarrow> char" where
  "hex_digit n = (if n < 10 then char_of (48 + n) else char_of (87 + n))"

definition quote_char :: "char \<Rightarrow> string" where
  "quote_char c =
     (let n = (of_char c :: nat) in
      if n = 8 then [CHR 0x5C, CHR ''b'']
      else if n = 9 then [CHR 0x5C, CHR ''t'']
      else if n = 10 then [CHR 0x5C, CHR ''n'']
      else if n = 12 then [CHR 0x5C, CHR ''f'']
      else if n = 13 then [CHR 0x5C, CHR ''r'']
      else if n = 34 then [CHR 0x5C, CHR 0x22]
      else if n = 92 then [CHR 0x5C, CHR 0x5C]
      else if n < 32 then
        [CHR 0x5C, CHR ''u'', CHR ''0'', CHR ''0'', hex_digit (n div 16), hex_digit (n mod 16)]
      else [c])"

definition QuoteJSONString :: "string \<Rightarrow> string" where
  "QuoteJSONString s = [CHR 0x22] @ concat (map quote_char s) @ [CHR 0x22]"

fun join :: "string \<Rightarrow> string list \<Rightarrow> string" where
  "join sep [] = []"
| "join sep [x] = x"
| "join sep (x # y # ys) = x @ sep @ join sep (y # ys)"

fun JSON_stringify :: "('n \<Rightarrow> string) \<Rightarrow> 'n json \<Rightarrow> string" where
  "JSON_stringify num JNull = ''null''"
| "JSON_stringify num (JBool b) = (if b then ''true'' else ''false'')"
| "JSON_stringify num (JNum n) = num n"
| "JSON_stringify num (JStr s) = QuoteJSONString s"
| "JSON_stringify num (JArr vs) = ''['' @ join '','' (map (JSON_stringify num) vs) @ '']''"
| "JSON_stringify num (JObj kvs) =
     ''{'' @ join '','' (map (\<lambda>(k, v). QuoteJSONString k @ '':'' @ JSON_stringify num v) kvs) @ ''}''"

subsection \<open>StreamJsonAccumulator\<close>

text \<open>
  The callbacks are optional; the record says which are given. Every call the accumulator
  makes to one of them is appended to \<open>calls\<close>.
\<close>

record StreamJsonCallbacks =
  onAssistantText :: bool
  onToolUse :: bool
  onToolResult :: bool

datatype 'n callback_call =
    AssistantText string
  | ToolUse (cu_name: string) (cu_toolCallId: string) (cu_args: "'n json")
  | ToolResult (cr_name: string) (cr_toolCallId: string) (cr_isError: bool) (cr_result: string)

record 'n StreamJsonAccumulator =
  sessionId :: "string option"
  resultText :: string
  usage :: "('n json option \<times> 'n json option) option" \<comment> \<open>\<open>{input, output}\<close>\<close>
  toolNameById :: "string \<rightharpoonup> string"
  callbacks :: StreamJsonCallbacks
  calls :: "'n callback_call list"

definition new_StreamJsonAccumulator :: "StreamJsonCallbacks \<Rightarrow> 'n StreamJsonAccumulator" where
  "new_StreamJsonAccumulator cbs =
     \<lparr>sessionId = None, resultText = [], usage = None, toolNameById = Map.empty,
      callbacks = cbs, calls = []\<rparr>"

definition getToolName :: "'n StreamJsonAccumulator \<Rightarrow> string \<Rightarrow> string" where
  "getToolName this toolUseId =
     (case toolNameById this toolUseId of Some name \<Rightarrow> name | None \<Rightarrow> ''unknown'')"

text \<open>\<^verbatim>\<open>typeof v === "string"\<close>\<close>

fun is_string :: "'n json option \<Rightarrow> bool" where
  "is_string (Some (JStr s)) = True"
| "is_string _ = False"

text \<open>\<^verbatim>\<open>typeof v === "string" ? v : d\<close>\<close>

fun string_or :: "'n json option \<Rightarrow> string \<Rightarrow> string" where
  "string_or (Some (JStr s)) d = s"
| "string_or _ d = d"

definition handle_system ::
  "'n StreamJsonAccumulator \<Rightarrow> 'n json \<Rightarrow> 'n StreamJsonAccumulator" where
  "handle_system this parsed =
     this\<lparr>sessionId :=
       (case property parsed ''session_id'' of Some (JStr s) \<Rightarrow> Some s | _ \<Rightarrow> sessionId this)\<rparr>"

text \<open>The body of the loop over the content blocks of an assistant message.\<close>

definition assistant_block ::
  "'n StreamJsonAccumulator \<Rightarrow> 'n json \<Rightarrow> 'n StreamJsonAccumulator" where
  "assistant_block this block =
     (if is_object (Some block) \<and> property block ''type'' = Some (JStr ''text'') then
        (case property block ''text'' of
           Some (JStr text) \<Rightarrow>
             if length text > 0 then
               (let this1 = this\<lparr>resultText := resultText this @ text\<rparr>
                in if onAssistantText (callbacks this1)
                   then this1\<lparr>calls := calls this1 @ [AssistantText text]\<rparr> else this1)
             else this
         | _ \<Rightarrow> this)
      else this)"

text \<open>
  \<^verbatim>\<open>Array.isArray(message?.content) ? message.content : []\<close>, where \<open>message\<close> is
  \<open>parsed.message\<close>.
\<close>

definition assistant_content :: "'n json \<Rightarrow> 'n json list" where
  "assistant_content parsed =
     (let message = property parsed ''message'';
          content = (case message of
                       None \<Rightarrow> None
                     | Some JNull \<Rightarrow> None
                     | Some m \<Rightarrow> property m ''content'')
      in case content of Some (JArr blocks) \<Rightarrow> blocks | _ \<Rightarrow> [])"

definition handle_assistant ::
  "'n StreamJsonAccumulator \<Rightarrow> 'n json \<Rightarrow> 'n StreamJsonAccumulator" where
  "handle_assistant this parsed = foldl assistant_block this (assistant_content parsed)"

text \<open>\<^verbatim>\<open>parsed.input ?? parsed.args ?? {}\<close>\<close>

definition tool_use_args :: "'n json \<Rightarrow> 'n json" where
  "tool_use_args parsed =
     (case coalesce (property parsed ''input'') (coalesce (property parsed ''args'') (Some (JObj [])))
      of Some a \<Rightarrow> a | None \<Rightarrow> JObj [])"

definition handle_tool_use ::
  "'n StreamJsonAccumulator \<Rightarrow> 'n json \<Rightarrow> 'n StreamJsonAccumulator" where
  "handle_tool_use this parsed =
     (let toolCallId = string_or (property parsed ''tool_use_id'') [];
          name = string_or (property parsed ''name'') ''unknown'';
          args = tool_use_args parsed;
          this1 = (if toolCallId \<noteq> []
                   then this\<lparr>toolNameById := (toolNameById this)(toolCallId \<mapsto> name)\<rparr>
                   else this)
      in if onToolUse (callbacks this1)
         then this1\<lparr>calls := calls this1 @ [ToolUse name toolCallId args]\<rparr> else this1)"

definition tool_result_text :: "('n \<Rightarrow> string) \<Rightarrow> 'n json \<Rightarrow> string" where
  "tool_result_text num parsed =
     (case property parsed ''content'' of
        Some (JStr s) \<Rightarrow> s
      | _ \<Rightarrow>
        (case property parsed ''output'' of
           Some (JStr s) \<Rightarrow> s
         | _ \<Rightarrow>
           (case coalesce (property parsed ''content'')
                   (coalesce (property parsed ''output'') (Some (JStr [])))
            of Some v \<Rightarrow> JSON_stringify num v | None \<Rightarrow> JSON_stringify num (JStr []))))"

definition handle_tool_result ::
  "('n \<Rightarrow> string) \<Rightarrow> 'n StreamJsonAccumulator \<Rightarrow> 'n json \<Rightarrow> 'n StreamJsonAccumulator" where
  "handle_tool_result num this parsed =
     (let toolCallId = string_or (property parsed ''tool_use_id'') [];
          name = getToolName this toolCallId;
          isError = (property parsed ''is_error'' = Some (JBool True));
          result = tool_result_text num parsed
      in if onToolResult (callbacks this)
         then this\<lparr>calls := calls this @ [ToolResult name toolCallId isError result]\<rparr>
         else this)"

definition handle_result ::
  "'n StreamJsonAccumulator \<Rightarrow> 'n json \<Rightarrow> 'n StreamJsonAccumulator" where
  "handle_result this parsed =
     (let this1 = (case property parsed ''result'' of
                     Some (JStr r) \<Rightarrow> if length r > 0 then this\<lparr>resultText := r\<rparr> else this
                   | _ \<Rightarrow> this);
          this2 = (case property parsed ''session_id'' of
                     Some (JStr s) \<Rightarrow> this1\<lparr>sessionId := Some s\<rparr>
                   | _ \<Rightarrow> this1)
      in case property parsed ''usage'' of
           Some raw \<Rightarrow>
             if is_object (Some raw) then
               this2\<lparr>usage := Some
                 (coalesce (property raw ''input_tokens'') (property raw ''input''),
                  coalesce (property raw ''output_tokens'') (property raw ''output''))\<rparr>
             else this2
         | None \<Rightarrow> this2)"

text \<open>
  \<open>handleLine\<close>. \<^verbatim>\<open>JSON.parse\<close> is the runtime's and is a parameter: \<open>None\<close> stands for
  the \<open>SyntaxError\<close> the \<^verbatim>\<open>catch\<close> swallows. Reading \<^verbatim>\<open>parsed.type\<close> stands outside the
  \<^verbatim>\<open>try\<close>; on \<open>null\<close> it throws a \<open>TypeError\<close>, before anything is changed.
\<close>

definition handleParsed ::
  "('n \<Rightarrow> string) \<Rightarrow> 'n StreamJsonAccumulator \<Rightarrow> 'n json \<Rightarrow> error + 'n StreamJsonAccumulator" where
  "handleParsed num this parsed =
     (if parsed = JNull then Inl TypeError
      else
        (let type = property parsed ''type'' in
         if type = Some (JStr ''system'') then Inr (handle_system this parsed)
         else if type = Some (JStr ''assistant'') then Inr (handle_assistant this parsed)
         else if type = Some (JStr ''tool_use'') then Inr (handle_tool_use this parsed)
         else if type = Some (JStr ''tool_result'') then Inr (handle_tool_result num this parsed)
         else if type = Some (JStr ''result'') then Inr (handle_result this parsed)
         else Inr this))"

definition handleLine ::
  "(string \<Rightarrow> 'n json option) \<Rightarrow> ('n \<Rightarrow> string) \<Rightarrow> 'n StreamJsonAccumulator \<Rightarrow> string
     \<Rightarrow> error + 'n StreamJsonAccumulator" where
  "handleLine JSON_parse num this line =
     (case JSON_parse line of
        None \<Rightarrow> Inr this
      | Some parsed \<Rightarrow> handleParsed num this parsed)"

text \<open>Feeding lines in order; an exception ends the feeding.\<close>

fun handleLines ::
  "(string \<Rightarrow> 'n json option) \<Rightarrow> ('n \<Rightarrow> string) \<Rightarrow> 'n StreamJsonAccumulator \<Rightarrow> string list
     \<Rightarrow> error + 'n StreamJsonAccumulator" where
  "handleLines JSON_parse num this [] = Inr this"
| "handleLines JSON_parse num this (line # rest) =
     (case handleLine JSON_parse num this line of
        Inl e \<Rightarrow> Inl e
      | Inr this' \<Rightarrow> handleLines JSON_parse num this' rest)"

text \<open>\<open>finalize().text\<close>\<close>

definition finalize_text :: "'n StreamJsonAccumulator \<Rightarrow> string" where
  "finalize_text this = resultText this"


subsection \<open>The specification's reading of a line\<close>

text \<open>
  The final text a parsed line carries: the \<open>result\<close> field of a \<open>result\<close> line when it is
  a non-empty string.
\<close>

definition result_text_of :: "'n json option \<Rightarrow> string option" where
  "result_text_of p =
     (case p of
        None \<Rightarrow> None
      | Some JNull \<Rightarrow> None
      | Some v \<Rightarrow>
          if property v ''type'' = Some (JStr ''result'') then
            (case property v ''result'' of
               Some (JStr r) \<Rightarrow> if r = [] then None else Some r
             | _ \<Rightarrow> None)
          else None)"

text \<open>The non-empty text of a content block of kind \<open>text\<close>.\<close>

definition block_text :: "'n json \<Rightarrow> string" where
  "block_text block =
     (if is_object (Some block) \<and> property block ''type'' = Some (JStr ''text'')
      then string_or (property block ''text'') [] else [])"

text \<open>The text blocks of an \<open>assistant\<close> line, concatenated; empty for any other line.\<close>

definition assistant_text_of :: "'n json option \<Rightarrow> string" where
  "assistant_text_of p =
     (case p of
        None \<Rightarrow> []
      | Some JNull \<Rightarrow> []
      | Some v \<Rightarrow>
          if property v ''type'' = Some (JStr ''assistant'')
          then concat (map block_text (assistant_content v)) else [])"

text \<open>
  The text the claim promises for a sequence of parsed lines: the text of the last result
  line that carries one, and without such a line all the assistant text.
\<close>

definition claimed_text :: "'n json option list \<Rightarrow> string" where
  "claimed_text ps =
     (case List.map_filter result_text_of ps of
        [] \<Rightarrow> concat (map assistant_text_of ps)
      | r # rs \<Rightarrow> last (r # rs))"

text \<open>A line that registers the call id \<open>i\<close>: a \<open>tool_use\<close> line whose \<open>tool_use_id\<close> is \<open>i\<close>.\<close>

definition registers :: "'n json option \<Rightarrow> string \<Rightarrow> bool" where
  "registers p i =
     (case p of
        None \<Rightarrow> False
      | Some JNull \<Rightarrow> False
      | Some v \<Rightarrow>
          property v ''type'' = Some (JStr ''tool_use'') \<and>
          property v ''tool_use_id'' = Some (JStr i))"

text \<open>The five discriminators \<open>handleLine\<close> dispatches on.\<close>

definition known_types :: "string list" where
  "known_types = [''system'', ''assistant'', ''tool_use'', ''tool_result'', ''result'']"

definition recognised :: "'n json \<Rightarrow> bool" where
  "recognised v = (\<exists>t \<in> set known_types. property v ''type'' = Some (JStr t))"

text \<open>
  The text the accumulator holds after a sequence of parsed lines, from the text \<open>t\<close>: a
  result text replaces it, assistant text is appended to it.
\<close>

fun text_after :: "string \<Rightarrow> 'n json option list \<Rightarrow> string" where
  "text_after t [] = t"
| "text_after t (p # ps) =
     text_after (case result_text_of p of Some r \<Rightarrow> r | None \<Rightarrow> t @ assistant_text_of p) ps"

subsection \<open>Example lines\<close>

text \<open>
  The parsed form of the lines the examples feed, and a stand-in for \<^verbatim>\<open>JSON.parse\<close> on
  them: a table from the lines of an example to the values they parse to; a line outside
  the table does not parse. The line \<open>null\<close> is written out; every other line is named by
  a short label in place of its JSON text, and its value is the one given beside it.
\<close>

definition assistant_line :: "string \<Rightarrow> 'n json" where
  "assistant_line t =
     JObj [(''type'', JStr ''assistant''),
           (''message'', JObj [(''content'', JArr [JObj [(''type'', JStr ''text''), (''text'', JStr t)]])])]"

definition result_line :: "string \<Rightarrow> 'n json" where
  "result_line r = JObj [(''type'', JStr ''result''), (''result'', JStr r)]"

definition tool_use_line :: "string \<Rightarrow> string \<Rightarrow> 'n json" where
  "tool_use_line i name =
     JObj [(''type'', JStr ''tool_use''), (''tool_use_id'', JStr i), (''name'', JStr name)]"

definition parse_as :: "(string \<times> 'n json) list \<Rightarrow> string \<Rightarrow> 'n json option" where
  "parse_as table line = map_of table line"

definition tool_result_line :: "(string \<times> 'n json) list \<Rightarrow> 'n json" where
  "tool_result_line fs = JObj ((''type'', JStr ''tool_result'') # fs)"

definition ex_parse :: "string \<Rightarrow> nat json option" where
  "ex_parse = parse_as
     [(''assistant partial'', assistant_line ''partial''),
      (''assistant more'', assistant_line ''more''),
      (''result final'', result_line ''final''),
      (''tool_use tu-1 Read'', tool_use_line ''tu-1'' ''Read''),
      (''tool_use'', JObj [(''type'', JStr ''tool_use'')]),
      (''tool_use 7'', JObj [(''type'', JStr ''tool_use''), (''tool_use_id'', JNum 7),
                            (''name'', JStr ''Bash'')]),
      (''tool_result content'',
         tool_result_line [(''tool_use_id'', JStr ''tu-1''), (''content'', JStr ''done'')]),
      (''tool_result output'',
         tool_result_line [(''is_error'', JBool True), (''output'', JStr ''denied'')]),
      (''tool_result content array'',
         tool_result_line [(''content'', JArr [JStr ''a'', JBool True])]),
      (''tool_result output object'',
         tool_result_line [(''content'', JNull), (''output'', JObj [(''k'', JNull)])]),
      (''tool_result'', tool_result_line []),
      (''null'', JNull),
      (''unknown_event'', JObj [(''type'', JStr ''unknown_event''), (''data'', JStr ''something'')])]"

definition all_callbacks :: StreamJsonCallbacks where
  "all_callbacks = \<lparr>onAssistantText = True, onToolUse = True, onToolResult = True\<rparr>"

section \<open>agents/pi-embedded-subscribe.ts\<close>

subsection \<open>\<open>THINKING_TAG_RE\<close>\<close>

text \<open>
  The pattern is \<^verbatim>\<open><\s*\/?\s*think(?:ing)?\s*>\<close> with the flags \<open>g\<close> and \<open>i\<close>.

  \<open>\s\<close> on the code units below 256: tab, line feed, vertical tab, form feed, carriage
  return, space and no-break space. \<open>trim\<close> strips the same set.
\<close>

definition is_space :: "char \<Rightarrow> bool" where
  "is_space c = (let n = (of_char c :: nat) in (9 \<le> n \<and> n \<le> 13) \<or> n = 32 \<or> n = 160)"

text \<open>
  The case folding of the \<open>i\<close> flag (\<open>Canonicalize\<close> without the \<open>u\<close> flag) upper-cases a
  code unit, and never maps one from 128 up to one below 128. The code units \<open>0xB5\<close> and
  \<open>0xFF\<close>, whose upper-case forms lie above 255, stay in place here; they lie above 127
  either way.
\<close>

definition canonicalize :: "char \<Rightarrow> char" where
  "canonicalize c =
     (let n = (of_char c :: nat) in
      if (97 \<le> n \<and> n \<le> 122) \<or> (224 \<le> n \<and> n \<le> 254 \<and> n \<noteq> 247)
      then char_of (n - 32) else c)"

text \<open>\<open>toLowerCase\<close> on the code units below 256.\<close>

definition toLowerCase :: "char \<Rightarrow> char" where
  "toLowerCase c =
     (let n = (of_char c :: nat) in
      if (65 \<le> n \<and> n \<le> 90) \<or> (192 \<le> n \<and> n \<le> 222 \<and> n \<noteq> 215)
      then char_of (n + 32) else c)"

text \<open>A literal of the pattern at the head of the text, ignoring case.\<close>

fun ci_prefix :: "string \<Rightarrow> string \<Rightarrow> bool" where
  "ci_prefix [] s = True"
| "ci_prefix (p # ps) [] = False"
| "ci_prefix (p # ps) (c # cs) = (canonicalize p = canonicalize c \<and> ci_prefix ps cs)"

text \<open>
  The matcher returns the text left after the match. \<open>match_close\<close> is \<^verbatim>\<open>\s*>\<close>;
  \<open>match_name\<close> is \<^verbatim>\<open>think(?:ing)?\s*>\<close>, trying the optional group first and going
  on without it when the rest fails; \<open>match_tag\<close> is the whole pattern at the head of the
  text, trying the optional slash first, and returns the length of the match. A greedy
  \<^verbatim>\<open>\s*\<close> that gave back white space would leave white space in front of a piece that
  starts with no white space, or in front of the next \<^verbatim>\<open>\s*\<close>, which would take it again:
  backtracking into it finds no further match, so \<open>dropWhile\<close> stands for it.
\<close>

definition match_close :: "string \<Rightarrow> string option" where
  "match_close s =
     (case dropWhile is_space s of
        [] \<Rightarrow> None
      | c # r \<Rightarrow> if c = CHR ''>'' then Some r else None)"

definition match_name :: "string \<Rightarrow> string option" where
  "match_name s =
     (if ci_prefix ''think'' s then
        (let r = drop 5 s in
         case (if ci_prefix ''ing'' r then match_close (drop 3 r) else None) of
           Some r' \<Rightarrow> Some r'
         | None \<Rightarrow> match_close r)
      else None)"

definition match_body :: "string \<Rightarrow> string option" where
  "match_body r0 =
     (let r1 = dropWhile is_space r0 in
      case (case r1 of
              [] \<Rightarrow> None
            | c1 # r2 \<Rightarrow>
                if c1 = CHR ''/'' then match_name (dropWhile is_space r2) else None) of
        Some r \<Rightarrow> Some r
      | None \<Rightarrow> match_name (dropWhile is_space r1))"

definition match_tag :: "string \<Rightarrow> nat option" where
  "match_tag s =
     (case s of
        [] \<Rightarrow> None
      | c # r0 \<Rightarrow>
          if c \<noteq> CHR ''<'' then None
          else map_option (\<lambda>r. length s - length r) (match_body r0))"

text \<open>The leftmost match in a text: its index and its length.\<close>

fun find_match :: "string \<Rightarrow> (nat \<times> nat) option" where
  "find_match [] = None"
| "find_match (c # cs) =
     (case match_tag (c # cs) of
        Some n \<Rightarrow> Some (0, n)
      | None \<Rightarrow> map_option (\<lambda>(i, n). (Suc i, n)) (find_match cs))"

text \<open>
  \<open>RegExpBuiltinExec\<close> on a global pattern: the search starts at \<open>lastIndex\<close>; a match sets
  \<open>lastIndex\<close> to its end, a failure sets it to 0. The result is the match (index and
  length) and the new \<open>lastIndex\<close>. \<open>test\<close> is whether there is a match.
\<close>

definition re_exec :: "nat \<Rightarrow> string \<Rightarrow> (nat \<times> nat) option \<times> nat" where
  "re_exec lastIndex text =
     (if lastIndex > length text then (None, 0)
      else
        (case find_match (drop lastIndex text) of
           None \<Rightarrow> (None, 0)
         | Some (i, n) \<Rightarrow> (Some (lastIndex + i, n), lastIndex + i + n)))"

lemma match_close_length: "match_close s = Some r \<Longrightarrow> length r < length s"
proof -
  assume a: "match_close s = Some r"
  have "length (dropWhile is_space s) \<le> length s"
    by (rule length_dropWhile_le)
  with a show ?thesis
    by (auto simp: match_close_def split: list.splits if_splits)
qed

lemma match_name_length: "match_name s = Some r \<Longrightarrow> length r < length s"
proof -
  assume a: "match_name s = Some r"
  then have "match_close (drop 3 (drop 5 s)) = Some r \<or> match_close (drop 5 s) = Some r"
    by (auto simp: match_name_def Let_def split: if_splits option.splits)
  then have "length r < length (drop 3 (drop 5 s)) \<or> length r < length (drop 5 s)"
    by (auto dest: match_close_length)
  then show ?thesis by auto
qed

lemma match_body_length: "match_body s = Some r \<Longrightarrow> length r < length s"
proof -
  assume a: "match_body s = Some r"
  define r1 where "r1 = dropWhile is_space s"
  have l1: "length r1 \<le> length s"
    unfolding r1_def by (rule length_dropWhile_le)
  have l2: "length (dropWhile is_space t) \<le> length t" for t
    by (rule length_dropWhile_le)
  from a have "(\<exists>r2. r1 = CHR ''/'' # r2 \<and> match_name (dropWhile is_space r2) = Some r)
      \<or> match_name (dropWhile is_space r1) = Some r"
    unfolding match_body_def r1_def[symmetric] Let_def
    by (auto split: list.splits if_splits option.splits)
  then show ?thesis
  proof
    assume "\<exists>r2. r1 = CHR ''/'' # r2 \<and> match_name (dropWhile is_space r2) = Some r"
    then obtain r2 where r2: "r1 = CHR ''/'' # r2" and m: "match_name (dropWhile is_space r2) = Some r"
      by blast
    from match_name_length[OF m] l2[of r2] r2 l1 show ?thesis by simp
  next
    assume "match_name (dropWhile is_space r1) = Some r"
    from match_name_length[OF this] l2[of r1] l1 show ?thesis by simp
  qed
qed

lemma match_tag_length: "match_tag s = Some n \<Longrightarrow> 0 < n \<and> n \<le> length s"
  by (auto simp: match_tag_def split: list.splits if_splits dest!: match_body_length)

lemma find_match_length: "find_match s = Some (i, n) \<Longrightarrow> 0 < n \<and> i + n \<le> length s"
proof (induction s arbitrary: i)
  case Nil
  then show ?case by simp
next
  case (Cons c cs)
  show ?case
  proof (cases "match_tag (c # cs)")
    case None
    with Cons.prems obtain j where "find_match cs = Some (j, n)" and "i = Suc j"
      by auto
    with Cons.IH[of j] show ?thesis by simp
  next
    case (Some m)
    with Cons.prems match_tag_length[OF Some] show ?thesis by simp
  qed
qed

text \<open>
  \<open>text.matchAll(THINKING_TAG_RE)\<close>: the matches of a copy of the pattern that starts at
  the pattern's \<open>lastIndex\<close>, each as its index and its text. No match is empty, so the
  iteration goes on from the end of each match.
\<close>

lemma re_exec_advance:
  assumes "re_exec lastIndex text = (Some (idx, n), lastIndex')"
  shows "lastIndex < lastIndex' \<and> lastIndex' \<le> length text"
proof -
  from assms have le: "lastIndex \<le> length text"
    by (auto simp: re_exec_def split: if_splits)
  with assms obtain i where f: "find_match (drop lastIndex text) = Some (i, n)"
    and l: "lastIndex' = lastIndex + i + n"
    by (auto simp: re_exec_def split: option.splits)
  from find_match_length[OF f] le l show ?thesis by auto
qed

function matchAll :: "nat \<Rightarrow> string \<Rightarrow> (nat \<times> string) list" where
  "matchAll lastIndex text =
     (case re_exec lastIndex text of
        (None, _) \<Rightarrow> []
      | (Some (idx, n), lastIndex') \<Rightarrow> (idx, take n (drop idx text)) # matchAll lastIndex' text)"
  by pat_completeness auto
termination
proof (relation "measure (\<lambda>(lastIndex, text). Suc (length text) - lastIndex)")
  show "wf (measure (\<lambda>(lastIndex, text). Suc (length text) - lastIndex))"
    by simp
next
  fix lastIndex :: nat and s :: string and x1 x2 x2a x y
  assume "(x1, x2) = re_exec lastIndex s" and "x1 = Some x2a" and "(x, y) = x2a"
  then have "re_exec lastIndex s = (Some (x, y), x2)"
    by simp
  from re_exec_advance[OF this]
  show "((x2, s), lastIndex, s) \<in> measure (\<lambda>(lastIndex, text). Suc (length text) - lastIndex)"
    by auto
qed

declare matchAll.simps [simp del]

subsection \<open>\<open>stripThinkingSegments\<close>\<close>

text \<open>\<open>text.slice(a, b)\<close> for indices within the text.\<close>

definition slice :: "string \<Rightarrow> nat \<Rightarrow> nat \<Rightarrow> string" where
  "slice text a b = take (b - a) (drop a text)"

text \<open>The body of the loop over the matches, on \<open>(result, lastIndex, inThinking)\<close>.\<close>

definition strip_body ::
  "string \<Rightarrow> string \<times> nat \<times> bool \<Rightarrow> nat \<times> string \<Rightarrow> string \<times> nat \<times> bool" where
  "strip_body text st m =
     (case st of (result, lastIndex, inThinking) \<Rightarrow>
      case m of (idx, m0) \<Rightarrow>
        (let result' = (if \<not> inThinking then result @ slice text lastIndex idx else result);
             tag = map toLowerCase m0;
             inThinking' = (CHR ''/'' \<notin> set tag)
         in (result', idx + length m0, inThinking')))"

text \<open>
  \<open>THINKING_TAG_RE\<close> is a global pattern shared by all calls, so its \<open>lastIndex\<close> is state:
  the function takes it and returns it with the stripped text.
\<close>

definition stripThinkingSegments_re :: "nat \<Rightarrow> string \<Rightarrow> string \<times> nat" where
  "stripThinkingSegments_re re_lastIndex text =
     (if text = [] then (text, re_lastIndex)
      else
        (case re_exec re_lastIndex text of
           (None, li) \<Rightarrow> (text, li)
         | (Some _, li) \<Rightarrow>
             (case foldl (strip_body text) ([], 0, False) (matchAll 0 text) of
                (result, lastIndex, inThinking) \<Rightarrow>
                  (if \<not> inThinking then result @ drop lastIndex text else result, 0))))"

text \<open>The function on a pattern whose \<open>lastIndex\<close> is 0, as the module leaves it.\<close>

definition stripThinkingSegments :: "string \<Rightarrow> string" where
  "stripThinkingSegments text = fst (stripThinkingSegments_re 0 text)"

definition trim :: "string \<Rightarrow> string" where
  "trim s = rev (dropWhile is_space (rev (dropWhile is_space s)))"

subsection \<open>\<open>subscribeEmbeddedPiSession\<close>\<close>

text \<open>
  The functions the module imports are not part of the sources at hand; they are parameters
  of the model, as is the tool debouncer \<open>createToolDebouncer\<close> returns: its state has the
  type \<open>'d\<close>, \<open>debouncer_push\<close> is its \<open>push\<close>, and \<open>debouncer_flush\<close> gives the calls of the
  debouncer's callback a \<open>flush\<close> makes, with the state it leaves.
\<close>

record ('a, 'm, 'd) helpers =
  inferToolMetaFromArgs :: "string \<Rightarrow> 'a \<Rightarrow> string option"
  formatToolAggregate :: "string option \<Rightarrow> string list option \<Rightarrow> string"
  splitMediaFromOutput :: "string \<Rightarrow> string \<times> string list option"
  extractAssistantText :: "'m \<Rightarrow> string"
  debouncer_push :: "string \<Rightarrow> string option \<Rightarrow> 'd \<Rightarrow> 'd"
  debouncer_flush :: "'d \<Rightarrow> (string option \<times> string list option) list \<times> 'd"

text \<open>The payload of \<open>onToolResult\<close> and \<open>onPartialReply\<close>: \<open>{text, mediaUrls}\<close>.\<close>

type_synonym reply = "string \<times> string list option"

text \<open>The \<open>data\<close> of an agent event.\<close>

datatype 'a event_data =
    ToolStart string string "'a option" \<comment> \<open>name, toolCallId, args (left out for \<open>onAgentEvent\<close>)\<close>
  | ToolEnd string string "string option" bool \<comment> \<open>name, toolCallId, meta, isError\<close>
  | AssistantData string "string list option" \<comment> \<open>text, mediaUrls\<close>

text \<open>
  A sink is a function of the caller; \<open>onToolResult\<close> and \<open>onPartialReply\<close> are typed
  \<^verbatim>\<open>void | Promise<void>\<close>. A call of a sink returns (nothing, or a promise that is
  fulfilled), throws, or returns a promise that is rejected.
\<close>

datatype sink_result = Returns | Throws error | Rejects error

datatype verbose = Off | On

record 'a params =
  runId :: string
  verboseLevel :: "verbose option"
  shouldEmitToolResult :: "(unit \<Rightarrow> bool) option"
  onToolResult :: "(reply \<Rightarrow> sink_result) option"
  onPartialReply :: "(reply \<Rightarrow> sink_result) option"
  onAgentEvent :: "(string \<Rightarrow> 'a event_data \<Rightarrow> sink_result) option"

text \<open>Every call to \<open>emitAgentEvent\<close> and to a sink, in call order.\<close>

datatype 'a delivery =
    EmitAgentEvent string string "'a event_data" \<comment> \<open>runId, stream, data\<close>
  | ToAgentEvent string "'a event_data"
  | ToToolResult reply
  | ToPartialReply reply

record ('a, 'd) bridge =
  assistantTexts :: "string list"
  toolMetas :: "(string \<times> string option) list"
  toolMetaById :: "string \<rightharpoonup> string option"
  deltaBuffer :: string
  lastStreamedAssistant :: "string option"
  toolDebouncer :: 'd
  re_lastIndex :: nat \<comment> \<open>\<open>THINKING_TAG_RE.lastIndex\<close>\<close>
  deliveries :: "'a delivery list"
  unhandled :: "error list" \<comment> \<open>the rejections of promises that nothing handles\<close>

definition bridge_init :: "'d \<Rightarrow> ('a, 'd) bridge" where
  "bridge_init d =
     \<lparr>assistantTexts = [], toolMetas = [], toolMetaById = Map.empty, deltaBuffer = [],
      lastStreamedAssistant = None, toolDebouncer = d, re_lastIndex = 0, deliveries = [],
      unhandled = []\<rparr>"

datatype ('n, 'a, 'm) agent_event =
    ToolExecutionStart string string 'a \<comment> \<open>toolName, toolCallId, args\<close>
  | ToolExecutionEnd string string bool \<comment> \<open>toolName, toolCallId, isError\<close>
  | MessageUpdate "string option" "'n json option" \<comment> \<open>\<open>message.role\<close>, \<open>assistantMessageEvent\<close>\<close>
  | MessageEnd "string option" 'm \<comment> \<open>\<open>message.role\<close>, the message\<close>
  | AgentEnd
  | OtherEvent string

text \<open>
  A handler returns the exception that leaves it, if any, and the state. A call of a sink
  is recorded whatever comes of it.
\<close>

definition record_delivery :: "'a delivery \<Rightarrow> ('a, 'd) bridge \<Rightarrow> ('a, 'd) bridge" where
  "record_delivery x st = st\<lparr>deliveries := deliveries st @ [x]\<rparr>"

text \<open>
  \<^verbatim>\<open>void f(x)\<close>, and a call \<^verbatim>\<open>f?.(x)\<close> as a statement: what the sink returns is dropped. A
  throw leaves the call as an exception. A promise that is rejected has no handler, and
  its rejection is left unhandled.
\<close>

definition void_call ::
  "sink_result \<Rightarrow> ('a, 'd) bridge \<Rightarrow> error option \<times> ('a, 'd) bridge" where
  "void_call r st =
     (case r of
        Returns \<Rightarrow> (None, st)
      | Throws e \<Rightarrow> (Some e, st)
      | Rejects e \<Rightarrow> (None, st\<lparr>unhandled := unhandled st @ [e]\<rparr>))"

text \<open>\<^verbatim>\<open>try { ... } catch { }\<close>\<close>

definition try_catch_ignore :: "error option \<Rightarrow> error option" where
  "try_catch_ignore r = (case r of Some e \<Rightarrow> None | None \<Rightarrow> None)"

text \<open>\<^verbatim>\<open>mediaUrls?.length ? mediaUrls : undefined\<close>\<close>

definition nonempty_urls :: "string list option \<Rightarrow> string list option" where
  "nonempty_urls mediaUrls =
     (case mediaUrls of None \<Rightarrow> None | Some us \<Rightarrow> if length us > 0 then Some us else None)"

text \<open>\<^verbatim>\<open>params.onAgentEvent?.({stream, data})\<close>\<close>

definition call_onAgentEvent ::
  "'a params \<Rightarrow> string \<Rightarrow> 'a event_data \<Rightarrow> ('a, 'd) bridge \<Rightarrow> error option \<times> ('a, 'd) bridge" where
  "call_onAgentEvent p stream data st =
     (case onAgentEvent p of
        None \<Rightarrow> (None, st)
      | Some f \<Rightarrow> void_call (f stream data) (record_delivery (ToAgentEvent stream data) st))"

text \<open>\<^verbatim>\<open>if (params.onPartialReply) void params.onPartialReply(payload)\<close>\<close>

definition call_onPartialReply ::
  "'a params \<Rightarrow> reply \<Rightarrow> ('a, 'd) bridge \<Rightarrow> error option \<times> ('a, 'd) bridge" where
  "call_onPartialReply p payload st =
     (case onPartialReply p of
        None \<Rightarrow> (None, st)
      | Some f \<Rightarrow> void_call (f payload) (record_delivery (ToPartialReply payload) st))"

definition on_tool_execution_start ::
  "('a, 'm, 'd) helpers \<Rightarrow> 'a params \<Rightarrow> ('a, 'd) bridge \<Rightarrow> string \<Rightarrow> string \<Rightarrow> 'a
     \<Rightarrow> error option \<times> ('a, 'd) bridge" where
  "on_tool_execution_start h p st toolName toolCallId args =
     (let meta = inferToolMetaFromArgs h toolName args;
          st1 = st\<lparr>toolMetaById := (toolMetaById st)(toolCallId \<mapsto> meta)\<rparr>;
          st2 = record_delivery
                  (EmitAgentEvent (runId p) ''tool'' (ToolStart toolName toolCallId (Some args))) st1
      in call_onAgentEvent p ''tool'' (ToolStart toolName toolCallId None) st2)"

text \<open>
  The delivery of one tool result to \<open>onToolResult\<close>, the last statement of the
  \<open>tool_execution_end\<close> branch. The \<^verbatim>\<open>try\<close> block holds \<^verbatim>\<open>void params.onToolResult(...)\<close>:
  it catches what the call throws, and it has returned when a promise is rejected.
\<close>

definition deliver_tool_result ::
  "('a, 'm, 'd) helpers \<Rightarrow> 'a params \<Rightarrow> ('a, 'd) bridge \<Rightarrow> string \<Rightarrow> string option
     \<Rightarrow> error option \<times> ('a, 'd) bridge" where
  "deliver_tool_result h p st toolName meta =
     (let emitToolResult =
            (case shouldEmitToolResult p of
               Some f \<Rightarrow> f ()
             | None \<Rightarrow> verboseLevel p = Some On)
      in if emitToolResult then
           (case onToolResult p of
              None \<Rightarrow> (None, st)
            | Some sink \<Rightarrow>
                (let agg = formatToolAggregate h (Some toolName)
                             (case meta of
                                None \<Rightarrow> None
                              | Some m \<Rightarrow> if m \<noteq> [] then Some [m] else None);
                     (cleanedText, mediaUrls) = splitMediaFromOutput h agg
                 in if cleanedText \<noteq> [] \<or>
                       (case mediaUrls of None \<Rightarrow> False | Some us \<Rightarrow> length us > 0)
                    then
                      (let payload = (cleanedText, nonempty_urls mediaUrls);
                           (r, st1) = void_call (sink payload)
                                        (record_delivery (ToToolResult payload) st)
                       in (try_catch_ignore r, st1))
                    else (None, st)))
         else (None, st))"

definition on_tool_execution_end ::
  "('a, 'm, 'd) helpers \<Rightarrow> 'a params \<Rightarrow> ('a, 'd) bridge \<Rightarrow> string \<Rightarrow> string \<Rightarrow> bool
     \<Rightarrow> error option \<times> ('a, 'd) bridge" where
  "on_tool_execution_end h p st toolName toolCallId isError =
     (let meta = (case toolMetaById st toolCallId of Some m \<Rightarrow> m | None \<Rightarrow> None);
          st1 = st\<lparr>toolMetas := toolMetas st @ [(toolName, meta)],
                   toolDebouncer := debouncer_push h toolName meta (toolDebouncer st)\<rparr>;
          data = ToolEnd toolName toolCallId meta isError;
          st2 = record_delivery (EmitAgentEvent (runId p) ''tool'' data) st1
      in case call_onAgentEvent p ''tool'' data st2 of
           (Some e, st3) \<Rightarrow> (Some e, st3)
         | (None, st3) \<Rightarrow> deliver_tool_result h p st3 toolName meta)"

text \<open>The text of a \<open>text_delta\<close>, \<open>text_start\<close> or \<open>text_end\<close> event; empty otherwise.\<close>

definition update_chunk :: "'n json option \<Rightarrow> string" where
  "update_chunk assistantEvent =
     (case (if is_object assistantEvent then assistantEvent else None) of
        None \<Rightarrow> []
      | Some assistantRecord \<Rightarrow>
          (let evtType = string_or (property assistantRecord ''type'') []
           in if evtType = ''text_delta'' \<or> evtType = ''text_start'' \<or> evtType = ''text_end''
              then
                (case property assistantRecord ''delta'' of
                   Some (JStr d) \<Rightarrow> d
                 | _ \<Rightarrow> string_or (property assistantRecord ''content'') [])
              else []))"

definition on_message_update ::
  "('a, 'm, 'd) helpers \<Rightarrow> 'a params \<Rightarrow> ('a, 'd) bridge \<Rightarrow> string option \<Rightarrow> 'n json option
     \<Rightarrow> error option \<times> ('a, 'd) bridge" where
  "on_message_update h p st role assistantEvent =
     (if role = Some ''assistant'' then
        (let chunk = update_chunk assistantEvent in
         if chunk \<noteq> [] then
           (let st1 = st\<lparr>deltaBuffer := deltaBuffer st @ chunk\<rparr>;
                (stripped, li) = stripThinkingSegments_re (re_lastIndex st1) (deltaBuffer st1);
                st2 = st1\<lparr>re_lastIndex := li\<rparr>;
                next = trim stripped
            in if next \<noteq> [] \<and> Some next \<noteq> lastStreamedAssistant st2 then
                 (let st3 = st2\<lparr>lastStreamedAssistant := Some next\<rparr>;
                      (cleanedText, mediaUrls) = splitMediaFromOutput h next;
                      data = AssistantData cleanedText (nonempty_urls mediaUrls);
                      st4 = record_delivery (EmitAgentEvent (runId p) ''assistant'' data) st3
                  in case call_onAgentEvent p ''assistant'' data st4 of
                       (Some e, st5) \<Rightarrow> (Some e, st5)
                     | (None, st5) \<Rightarrow>
                         call_onPartialReply p (cleanedText, nonempty_urls mediaUrls) st5)
               else (None, st2))
         else (None, st))
      else (None, st))"

definition on_message_end ::
  "('a, 'm, 'd) helpers \<Rightarrow> ('a, 'd) bridge \<Rightarrow> string option \<Rightarrow> 'm
     \<Rightarrow> error option \<times> ('a, 'd) bridge" where
  "on_message_end h st role msg =
     (if role = Some ''assistant'' then
        (let (stripped, li) = stripThinkingSegments_re (re_lastIndex st) (extractAssistantText h msg);
             st1 = st\<lparr>re_lastIndex := li\<rparr>;
             st2 = (if stripped \<noteq> []
                    then st1\<lparr>assistantTexts := assistantTexts st1 @ [stripped]\<rparr> else st1)
         in (None, st2\<lparr>deltaBuffer := []\<rparr>))
      else (None, st))"

text \<open>
  The callback given to \<open>createToolDebouncer\<close>, run for the calls a flush makes; an
  exception ends the run.
\<close>

fun debouncer_callbacks ::
  "('a, 'm, 'd) helpers \<Rightarrow> 'a params \<Rightarrow> ('a, 'd) bridge
     \<Rightarrow> (string option \<times> string list option) list \<Rightarrow> error option \<times> ('a, 'd) bridge" where
  "debouncer_callbacks h p st [] = (None, st)"
| "debouncer_callbacks h p st ((toolName, metas) # rest) =
     (case onPartialReply p of
        None \<Rightarrow> debouncer_callbacks h p st rest
      | Some _ \<Rightarrow>
          (let (cleanedText, mediaUrls) = splitMediaFromOutput h (formatToolAggregate h toolName metas)
           in case call_onPartialReply p (cleanedText, nonempty_urls mediaUrls) st of
                (Some e, st1) \<Rightarrow> (Some e, st1)
              | (None, st1) \<Rightarrow> debouncer_callbacks h p st1 rest))"

definition on_agent_end ::
  "('a, 'm, 'd) helpers \<Rightarrow> 'a params \<Rightarrow> ('a, 'd) bridge \<Rightarrow> error option \<times> ('a, 'd) bridge" where
  "on_agent_end h p st =
     (let (cbs, d) = debouncer_flush h (toolDebouncer st)
      in debouncer_callbacks h p (st\<lparr>toolDebouncer := d\<rparr>) cbs)"

text \<open>The function given to \<open>session.subscribe\<close>.\<close>

fun handle_event ::
  "('a, 'm, 'd) helpers \<Rightarrow> 'a params \<Rightarrow> ('a, 'd) bridge \<Rightarrow> ('n, 'a, 'm) agent_event
     \<Rightarrow> error option \<times> ('a, 'd) bridge" where
  "handle_event h p st (ToolExecutionStart toolName toolCallId args) =
     on_tool_execution_start h p st toolName toolCallId args"
| "handle_event h p st (ToolExecutionEnd toolName toolCallId isError) =
     on_tool_execution_end h p st toolName toolCallId isError"
| "handle_event h p st (MessageUpdate role assistantEvent) =
     on_message_update h p st role assistantEvent"
| "handle_event h p st (MessageEnd role msg) = on_message_end h st role msg"
| "handle_event h p st AgentEnd = on_agent_end h p st"
| "handle_event h p st (OtherEvent t) = (None, st)"

text \<open>The state after a sequence of events; the session goes on after a handler throws.\<close>

definition handle_events ::
  "('a, 'm, 'd) helpers \<Rightarrow> 'a params \<Rightarrow> ('a, 'd) bridge \<Rightarrow> ('n, 'a, 'm) agent_event list
     \<Rightarrow> ('a, 'd) bridge" where
  "handle_events h p st evs = foldl (\<lambda>s ev. snd (handle_event h p s ev)) st evs"

subsection \<open>A recursive reading of the stripper, and markers as the specification words them\<close>

text \<open>
  \<open>scan\<close> goes through a text match by match as the loop of \<open>stripThinkingSegments\<close> does,
  without indices: it returns the text kept and whether the end is inside a thinking span.
\<close>

function scan :: "bool \<Rightarrow> string \<Rightarrow> string \<times> bool" where
  "scan inThinking s =
     (case find_match s of
        None \<Rightarrow> (if inThinking then [] else s, inThinking)
      | Some (i, n) \<Rightarrow>
          (case scan (CHR ''/'' \<notin> set (map toLowerCase (take n (drop i s)))) (drop (i + n) s) of
             (kept, t) \<Rightarrow> ((if inThinking then [] else take i s) @ kept, t)))"
  by pat_completeness auto
termination
proof (relation "measure (\<lambda>(inThinking, s). length s)")
  show "wf (measure (\<lambda>(inThinking, s). length s))"
    by simp
next
  fix inThinking :: bool and s :: string and x2 x y
  assume "find_match s = Some x2" and "(x, y) = x2"
  then have "find_match s = Some (x, y)"
    by simp
  from find_match_length[OF this]
  show "((CHR ''/'' \<notin> set (map toLowerCase (take y (drop x s))), drop (x + y) s), inThinking, s)
      \<in> measure (\<lambda>(inThinking, s). length s)"
    by auto
qed

declare scan.simps [simp del]

text \<open>No match of the text is a closing marker.\<close>

function closing_free :: "string \<Rightarrow> bool" where
  "closing_free s =
     (case find_match s of
        None \<Rightarrow> True
      | Some (i, n) \<Rightarrow> CHR ''/'' \<notin> set (take n (drop i s)) \<and> closing_free (drop (i + n) s))"
  by pat_completeness auto
termination
proof (relation "measure length")
  show "wf (measure length)"
    by simp
next
  fix s :: string and x2 x y
  assume "find_match s = Some x2" and "(x, y) = x2"
  then have "find_match s = Some (x, y)"
    by simp
  from find_match_length[OF this]
  show "(drop (x + y) s, s) \<in> measure length"
    by auto
qed

declare closing_free.simps [simp del]

text \<open>
  An opening marker is \<open><\<close>, white space, the tag name, white space, \<open>>\<close>; a closing marker
  has a slash, with white space around it, before the name. The tag name is \<open>thinking\<close> or
  \<open>think\<close> in any mix of upper and lower case.
\<close>

definition spaces :: "string \<Rightarrow> bool" where
  "spaces w = list_all is_space w"

definition tag_name :: "string \<Rightarrow> bool" where
  "tag_name kw =
     (list_all2 (\<lambda>p c. canonicalize p = canonicalize c) ''thinking'' kw \<or>
      list_all2 (\<lambda>p c. canonicalize p = canonicalize c) ''think'' kw)"

definition open_tag :: "string \<Rightarrow> string \<Rightarrow> string \<Rightarrow> string" where
  "open_tag w1 kw w2 = ''<'' @ w1 @ kw @ w2 @ ''>''"

definition close_tag :: "string \<Rightarrow> string \<Rightarrow> string \<Rightarrow> string \<Rightarrow> string" where
  "close_tag w1 w2 kw w3 = ''<'' @ w1 @ ''/'' @ w2 @ kw @ w3 @ ''>''"

subsection \<open>Example events, helpers and sinks\<close>

text \<open>A \<open>text_delta\<close> event of an assistant message.\<close>

definition text_delta :: "string \<Rightarrow> 'n json option" where
  "text_delta chunk = Some (JObj [(''type'', JStr ''text_delta''), (''delta'', JStr chunk)])"

text \<open>
  Stand-ins for the imported functions: no meta is inferred, a tool result is rendered as
  the tool's name, no media is found, and the debouncer is the list of what was pushed.
\<close>

definition ex_helpers :: "(unit, string, (string \<times> string option) list) helpers" where
  "ex_helpers =
     \<lparr>inferToolMetaFromArgs = (\<lambda>name args. None),
      formatToolAggregate = (\<lambda>name metas. case name of Some n \<Rightarrow> n | None \<Rightarrow> []),
      splitMediaFromOutput = (\<lambda>s. (s, None)),
      extractAssistantText = (\<lambda>m. m),
      debouncer_push = (\<lambda>name meta d. d @ [(name, meta)]),
      debouncer_flush = (\<lambda>d. ([], []))\<rparr>"

text \<open>
  Three sinks for tool results: one returns, one throws, and one, an async function,
  returns a promise that is rejected.
\<close>

definition returning_sink :: "reply \<Rightarrow> sink_result" where
  "returning_sink payload = Returns"

definition throwing_sink :: "reply \<Rightarrow> sink_result" where
  "throwing_sink payload = Throws (Thrown ''sink failed'')"

definition rejecting_sink :: "reply \<Rightarrow> sink_result" where
  "rejecting_sink payload = Rejects (Thrown ''sink failed'')"

text \<open>Verbose delivery to the given sink, with the two other sinks returning.\<close>

definition ex_params :: "(reply \<Rightarrow> sink_result) \<Rightarrow> unit params" where
  "ex_params sink =
     \<lparr>runId = ''run-1'', verboseLevel = Some On, shouldEmitToolResult = None,
      onToolResult = Some sink, onPartialReply = Some (\<lambda>payload. Returns),
      onAgentEvent = Some (\<lambda>stream data. Returns)\<rparr>"

section \<open>Properties of \<open>runCommandStreaming\<close>\<close>

lemma split_on_nonempty: "split_on c xs \<noteq> []"
  by (induction xs) (auto split: list.splits)

lemma split_on_notin: "c \<notin> set l \<Longrightarrow> split_on c (l @ c # r) = l # split_on c r"
  by (induction l) (auto split: list.splits)

lemma split_on_none: "c \<notin> set l \<Longrightarrow> split_on c l = [l]"
  by (induction l) (auto split: list.splits)

lemma indexOf_None: "indexOf c xs = None \<longleftrightarrow> c \<notin> set xs"
  by (induction xs) auto

lemma indexOf_Some:
  "indexOf c xs = Some i \<Longrightarrow> xs = take i xs @ c # drop (Suc i) xs \<and> c \<notin> set (take i xs)"
  by (induction xs arbitrary: i) (auto split: if_splits)

lemma split_on_append:
  "split_on c (a @ b) = butlast (split_on c a) @ split_on c (last (split_on c a) @ b)"
  by (induction a) (auto split: list.splits simp: split_on_nonempty)

text \<open>
  With a callback that returns, the loop of the stdout handler leaves the piece after the
  last newline in the buffer and passes the non-empty pieces before it to the callback.
\<close>

lemma stdout_loop_split:
  "never_throws cb \<Longrightarrow>
   stdout_loop cb (buf, tr) =
     (last (split_on NL buf),
      tr @ map OnStdoutLine (filter (\<lambda>l. l \<noteq> []) (butlast (split_on NL buf))))"
proof (induction cb "(buf, tr)" arbitrary: buf tr rule: stdout_loop.induct)
  case (1 cb' buf tr)
  have cb: "cb' before line = None" for before line
    using "1.prems" by (simp add: never_throws_def)
  show ?case
  proof (cases "indexOf NL buf")
    case None
    then have "NL \<notin> set buf" by (simp add: indexOf_None)
    then have "split_on NL buf = [buf]" by (rule split_on_none)
    with None show ?thesis
      by (subst stdout_loop.simps) simp
  next
    case (Some i)
    from indexOf_Some[OF Some] obtain l r where
      buf: "buf = l @ NL # r" and l: "l = take i buf" and r: "r = drop (Suc i) buf"
      and nl: "NL \<notin> set l"
      by metis
    have sp: "split_on NL buf = l # split_on NL r"
      using buf nl split_on_notin by metis
    show ?thesis
    proof (cases "l = []")
      case True
      have step: "stdout_loop cb' (buf, tr) = stdout_loop cb' (r, tr)"
        using Some l r True by (subst stdout_loop.simps) (simp add: Let_def)
      have e: "\<not> 0 < length (take i buf)"
        using True l by auto
      from "1.hyps"(2)[OF Some refl refl e "1.prems"]
      have "stdout_loop cb' (r, tr) =
          (last (split_on NL r),
           tr @ map OnStdoutLine (filter (\<lambda>l. l \<noteq> []) (butlast (split_on NL r))))"
        by (simp add: r[symmetric])
      with True show ?thesis
        by (simp add: step sp split_on_nonempty)
    next
      case False
      have step: "stdout_loop cb' (buf, tr) = stdout_loop cb' (r, tr @ [OnStdoutLine l])"
        using Some l r False by (subst stdout_loop.simps) (simp add: Let_def cb)
      have e: "0 < length (take i buf)"
        using False l by auto
      from "1.hyps"(1)[OF Some refl refl e cb "1.prems"]
      have "stdout_loop cb' (r, tr @ [OnStdoutLine l]) =
          (last (split_on NL r),
           (tr @ [OnStdoutLine l]) @
             map OnStdoutLine (filter (\<lambda>l. l \<noteq> []) (butlast (split_on NL r))))"
        by (simp add: r[symmetric] l[symmetric])
      with False show ?thesis
        by (simp add: step sp split_on_nonempty)
    qed
  qed
qed

text \<open>
  Whatever the callback does, the loop adds no call of \<open>resolve\<close> or \<open>reject\<close> to the trace.
\<close>

lemma settlements_append: "settlements (a @ b) = settlements a @ settlements b"
  by (induction a rule: settlements.induct) auto

lemma settlements_lines: "settlements (map OnStdoutLine ls) = []"
  by (induction ls) auto

lemma stdout_loop_settlements:
  "settlements (snd (stdout_loop cb (buf, tr))) = settlements tr"
proof (induction cb "(buf, tr)" arbitrary: buf tr rule: stdout_loop.induct)
  case (1 cb' buf tr)
  show ?case
  proof (cases "indexOf NL buf")
    case None
    then show ?thesis
      by (subst stdout_loop.simps) simp
  next
    case (Some i)
    show ?thesis
    proof (cases "0 < length (take i buf)")
      case False
      from "1.hyps"(2)[OF Some refl refl False] Some False show ?thesis
        by (subst stdout_loop.simps) (auto simp add: Let_def)
    next
      case True
      show ?thesis
      proof (cases "cb' (stdout_lines tr) (take i buf)")
        case None
        from "1.hyps"(1)[OF Some refl refl True None] Some True None show ?thesis
          by (subst stdout_loop.simps) (simp add: Let_def settlements_append)
      next
        case (Some e)
        with \<open>indexOf NL buf = Some i\<close> True show ?thesis
          by (subst stdout_loop.simps) (simp add: Let_def settlements_append)
      qed
    qed
  qed
qed

lemma resolve_in_settlements: "Resolve r \<in> set (settlements tr) \<longleftrightarrow> Resolve r \<in> set tr"
  by (induction tr rule: settlements.induct) auto

lemma run_append:
  "runCommandStreaming toString cb (evs @ [e]) =
     exec_step toString cb (runCommandStreaming toString cb evs) e"
  by (simp add: runCommandStreaming_def)

lemma run_append_list:
  "runCommandStreaming toString cb (evs @ post) =
     foldl (exec_step toString cb) (runCommandStreaming toString cb evs) post"
  by (simp add: runCommandStreaming_def)

lemma stdout_chunks_append: "stdout_chunks (a @ b) = stdout_chunks a @ stdout_chunks b"
  by (induction a rule: stdout_chunks.induct) auto

lemma stderr_chunks_append: "stderr_chunks (a @ b) = stderr_chunks a @ stderr_chunks b"
  by (induction a rule: stderr_chunks.induct) auto

lemma nonempty_lines_eq:
  "nonempty_lines out =
     complete_lines out @ (if last (split_on NL out) = [] then [] else [last (split_on NL out)])"
proof -
  have "split_on NL out = butlast (split_on NL out) @ [last (split_on NL out)]"
    by (simp add: split_on_nonempty)
  then have "filter (\<lambda>l. l \<noteq> []) (split_on NL out) =
      filter (\<lambda>l. l \<noteq> []) (butlast (split_on NL out) @ [last (split_on NL out)])"
    by simp
  then show ?thesis
    by (simp add: nonempty_lines_def complete_lines_def)
qed

text \<open>
  While no terminal event has come and the callback has returned from every call, the
  promise is pending, the buffer holds the piece after the last newline of the text decoded
  so far, chunk by chunk, and the callback has had the non-empty pieces before it.
\<close>

lemma running_invariant:
  assumes "never_throws cb" and "\<not> list_ex terminal evs"
  shows "(let s = runCommandStreaming toString cb evs;
            out = concat (map toString (stdout_chunks evs)) in
     \<not> settled s \<and>
     lineBuffer s = last (split_on NL out) \<and>
     stderr s = concat (map toString (stderr_chunks evs)) \<and>
     trace s = map OnStdoutLine (complete_lines out))"
  using assms(2)
proof (induction evs rule: rev_induct)
  case Nil
  then show ?case by (simp add: runCommandStreaming_def exec_init_def complete_lines_def)
next
  case (snoc e evs)
  let ?s = "runCommandStreaming toString cb evs"
  let ?out = "concat (map toString (stdout_chunks evs))"
  from snoc have IH: "\<not> settled ?s"
    "lineBuffer ?s = last (split_on NL ?out)"
    "stderr ?s = concat (map toString (stderr_chunks evs))"
    "trace ?s = map OnStdoutLine (complete_lines ?out)"
    and nt: "\<not> terminal e"
    by (simp_all add: Let_def)
  show ?case
  proof (cases e)
    case (StdoutData chunk)
    have sp: "split_on NL (?out @ toString chunk) =
        butlast (split_on NL ?out) @ split_on NL (last (split_on NL ?out) @ toString chunk)"
      by (rule split_on_append)
    show ?thesis
      using IH StdoutData
      by (simp add: run_append on_stdout_data_def stdout_loop_split[OF assms(1)] Let_def
          stdout_chunks_append stderr_chunks_append complete_lines_def sp
          split_on_nonempty butlast_append)
  next
    case (StderrData d)
    then show ?thesis using IH
      by (simp add: run_append on_stderr_data_def Let_def stdout_chunks_append
          stderr_chunks_append)
  next
    case (SpawnError err)
    then show ?thesis using nt by simp
  next
    case (Close c sg)
    then show ?thesis using nt by simp
  next
    case (TimerFired delivered)
    then show ?thesis using IH
      by (simp add: run_append on_timer_def Let_def stdout_chunks_append stderr_chunks_append)
  qed
qed

text \<open>Once \<open>settled\<close> is set, no event settles the promise, whatever the callback does.\<close>

lemma settled_step:
  "settled s \<Longrightarrow>
   settled (exec_step toString cb s e) \<and>
   settlements (trace (exec_step toString cb s e)) = settlements (trace s)"
proof (cases e)
  case (StdoutData chunk)
  assume "settled s"
  moreover have "settlements (snd (stdout_loop cb (lineBuffer s @ toString chunk, trace s))) =
      settlements (trace s)"
    by (rule stdout_loop_settlements)
  ultimately show ?thesis
    using StdoutData by (simp add: on_stdout_data_def split_def Let_def)
qed (simp_all add: on_error_def on_close_def on_timer_def on_stderr_data_def)

lemma settled_steps:
  "settled s \<Longrightarrow>
   settled (foldl (exec_step toString cb) s evs) \<and>
   settlements (trace (foldl (exec_step toString cb) s evs)) = settlements (trace s)"
proof (induction evs arbitrary: s)
  case Nil
  then show ?case by simp
next
  case (Cons e evs)
  from settled_step[OF Cons.prems, of toString cb e]
    Cons.IH[of "exec_step toString cb s e"]
  show ?case by simp
qed

lemma first_terminal_settles:
  assumes "never_throws cb" and "\<not> list_ex terminal pre" and "terminal t"
  shows "settled (runCommandStreaming toString cb (pre @ [t])) \<and>
     settlements (trace (runCommandStreaming toString cb (pre @ [t]))) =
       settle_outcome (runCommandStreaming toString cb pre) t"
  using running_invariant[OF assms(1,2), of toString] assms(1,3)
  by (cases t)
     (simp_all add: run_append on_error_def on_close_def Let_def settlements_append
        settlements_lines never_throws_def)

lemma settle_outcome_length: "terminal t \<Longrightarrow> length (settle_outcome s t) = 1"
  by (cases t) simp_all

text \<open>
  With a callback that returns from every call, the promise is settled by the first
  terminal event and by nothing else.
\<close>

lemma settles_exactly_once_when_callback_returns:
  assumes "never_throws cb"
  shows "(\<not> list_ex terminal evs \<longrightarrow>
            settlements (trace (runCommandStreaming toString cb evs)) = []) \<and>
   (\<not> list_ex terminal pre \<and> terminal t \<longrightarrow>
      settlements (trace (runCommandStreaming toString cb (pre @ t # post))) =
        settle_outcome (runCommandStreaming toString cb pre) t \<and>
      length (settlements (trace (runCommandStreaming toString cb (pre @ t # post)))) = 1)"
proof (intro conjI impI)
  assume "\<not> list_ex terminal evs"
  from running_invariant[OF assms this, of toString]
  show "settlements (trace (runCommandStreaming toString cb evs)) = []"
    by (simp add: Let_def settlements_lines)
next
  assume a: "\<not> list_ex terminal pre \<and> terminal t"
  have "runCommandStreaming toString cb (pre @ t # post) =
      foldl (exec_step toString cb) (runCommandStreaming toString cb (pre @ [t])) post"
    by (simp add: runCommandStreaming_def)
  with first_terminal_settles[OF assms, of pre t toString] a
    settled_steps[of "runCommandStreaming toString cb (pre @ [t])" toString cb post]
  show eq: "settlements (trace (runCommandStreaming toString cb (pre @ t # post))) =
      settle_outcome (runCommandStreaming toString cb pre) t"
    by simp
  from a show "length (settlements (trace (runCommandStreaming toString cb (pre @ t # post)))) = 1"
    by (simp add: eq settle_outcome_length)
qed

lemma settled_ignores_terminal:
  "settled s \<Longrightarrow> terminal e \<Longrightarrow> exec_step toString cb s e = s"
  by (cases e) (simp_all add: on_error_def on_close_def)

text \<open>
  A close event that finds the promise pending and a remainder in the buffer sets
  \<open>settled\<close> before it calls the callback. When that call throws, \<open>resolve\<close> is not
  reached, and no later event settles the promise.
\<close>

lemma throwing_flush_never_settles:
  assumes "\<not> settled s" and "lineBuffer s \<noteq> []"
    and "cb (stdout_lines (trace s)) (lineBuffer s) = Some e"
  shows "settlements (trace (foldl (exec_step toString cb) s (Close c sg # post))) =
     settlements (trace s)"
proof -
  let ?s1 = "exec_step toString cb s (Close c sg)"
  from assms have "settled ?s1" and "settlements (trace ?s1) = settlements (trace s)"
    by (simp_all add: on_close_def Let_def settlements_append)
  with settled_steps[of ?s1 toString cb post] show ?thesis
    by simp
qed

lemma resolve_stdout_step:
  assumes "\<forall>r. Resolve r \<in> set (trace s) \<longrightarrow> stdout r = []"
  shows "\<forall>r. Resolve r \<in> set (trace (exec_step toString cb s e)) \<longrightarrow> stdout r = []"
proof (cases e)
  case (StdoutData chunk)
  have "settlements (snd (stdout_loop cb (lineBuffer s @ toString chunk, trace s))) =
      settlements (trace s)"
    by (rule stdout_loop_settlements)
  then have "Resolve r \<in> set (snd (stdout_loop cb (lineBuffer s @ toString chunk, trace s)))
      \<longleftrightarrow> Resolve r \<in> set (trace s)" for r
    using resolve_in_settlements by metis
  with assms StdoutData show ?thesis
    by (simp add: on_stdout_data_def split_def Let_def)
next
  case (Close c sg)
  with assms show ?thesis
    by (auto simp: on_close_def Let_def split: option.splits)
qed (use assms in \<open>auto simp: on_error_def on_timer_def on_stderr_data_def\<close>)

lemma resolve_stdout_all:
  "\<forall>r. Resolve r \<in> set (trace (runCommandStreaming toString cb evs)) \<longrightarrow> stdout r = []"
proof (induction evs rule: rev_induct)
  case Nil
  show ?case by (simp add: runCommandStreaming_def exec_init_def)
next
  case (snoc e evs)
  then show ?case
    using resolve_stdout_step[of "runCommandStreaming toString cb evs" toString cb e]
    by (simp add: run_append)
qed

text \<open>
  Chunks of whole characters can be decoded one by one: the texts, put together, are the
  text of the concatenation.
\<close>

lemma decoding_whole_characters:
  "whole_characters a \<Longrightarrow> utf8_toString (a @ b) = utf8_toString a @ utf8_toString b"
proof (induction a rule: whole_characters.induct)
  case 1
  show ?case by simp
next
  case (2 c cs)
  consider (a) "c < 0x80" | (b) "0xC2 \<le> c" "c \<le> 0xDF" | (c) "0xE0 \<le> c" "c \<le> 0xEF"
    | (d) "0xF0 \<le> c" "c \<le> 0xF4"
    | (e) "\<not> c < 0x80" "\<not> (0xC2 \<le> c \<and> c \<le> 0xDF)" "\<not> (0xE0 \<le> c \<and> c \<le> 0xEF)"
          "\<not> (0xF0 \<le> c \<and> c \<le> 0xF4)"
    by linarith
  then show ?case
  proof cases
    case a
    with 2 show ?thesis by simp
  next
    case b
    with 2 show ?thesis
      by (cases cs) simp_all
  next
    case c
    with 2 show ?thesis
      by (cases cs; cases "tl cs") simp_all
  next
    case d
    with 2 show ?thesis
      by (cases cs; cases "tl cs"; cases "tl (tl cs)") simp_all
  next
    case e
    with "2.prems" show ?thesis by simp
  qed
qed

lemma decoding_whole_chunks:
  "list_all whole_characters chunks \<Longrightarrow>
   concat (map utf8_toString chunks) = utf8_toString (concat chunks)"
  by (induction chunks) (simp_all add: decoding_whole_characters)

lemmas exec_eval =
  runCommandStreaming_def exec_init_def on_stdout_data_def on_stderr_data_def on_error_def
  on_close_def on_timer_def stdout_loop.simps Let_def NL_def str_def bytes_def
  REPLACEMENT_def continuation_def second_ok_def code_point_units_def
  returning_callback_def throws_on_null_def

text \<open>
  Claim C1, as amended. Let stdout chunks and stderr chunks come in any interleaving,
  followed by the close event with no error event before it, let the callback return from
  every call, and let the stdout chunks be cut between characters, so that decoding them one
  by one gives the decoding of their concatenation (as \<open>decoding_whole_chunks\<close> shows for
  chunks of whole characters). Then the handlers call \<open>onStdoutLine\<close>
  with exactly the non-empty pieces between the newlines of the decoded concatenation, in
  order, the piece after the last newline last, and only then resolve the promise. Empty
  lines are not passed to the callback.
\<close>

theorem C1_lines_are_nonempty_pieces:
  assumes "never_throws onStdoutLine"
    and "\<not> list_ex terminal evs"
    and "concat (map toString (stdout_chunks evs)) = toString (concat (stdout_chunks evs))"
  shows "trace (runCommandStreaming toString onStdoutLine (evs @ [Close c sg])) =
     map OnStdoutLine (nonempty_lines (toString (concat (stdout_chunks evs)))) @
     [Resolve (SpawnResult [] (concat (map toString (stderr_chunks evs))) c sg
        (child_killed (runCommandStreaming toString onStdoutLine evs)))]"
proof -
  have cb: "onStdoutLine before line = None" for before line
    using assms(1) by (simp add: never_throws_def)
  from running_invariant[OF assms(1,2), of toString] show ?thesis
    unfolding assms(3)[symmetric]
    by (simp add: run_append on_close_def Let_def nonempty_lines_eq cb)
qed

text \<open>
  Witness for C1: the chunks \<open>hel\<close>, \<open>lo\<newline>\<close> with the two bytes of \<open>U+00E9\<close>, and
  \<open>\<newline>\<newline>end\<close>, with a stderr chunk between them, then the close event. The callback gets
  \<open>hello\<close>, the one code unit \<open>U+00E9\<close> and \<open>end\<close>.
\<close>

theorem C1_witness:
  "never_throws returning_callback \<and>
   \<not> list_ex terminal
       [StdoutData [0x68, 0x65, 0x6C], StderrData [0x77, 0x61, 0x72, 0x6E],
        StdoutData [0x6C, 0x6F, 0x0A, 0xC3, 0xA9], StdoutData [0x0A, 0x0A, 0x65, 0x6E, 0x64]] \<and>
   concat (map utf8_toString (stdout_chunks
       [StdoutData [0x68, 0x65, 0x6C], StderrData [0x77, 0x61, 0x72, 0x6E],
        StdoutData [0x6C, 0x6F, 0x0A, 0xC3, 0xA9], StdoutData [0x0A, 0x0A, 0x65, 0x6E, 0x64]])) =
     utf8_toString (concat (stdout_chunks
       [StdoutData [0x68, 0x65, 0x6C], StderrData [0x77, 0x61, 0x72, 0x6E],
        StdoutData [0x6C, 0x6F, 0x0A, 0xC3, 0xA9], StdoutData [0x0A, 0x0A, 0x65, 0x6E, 0x64]])) \<and>
   trace (runCommandStreaming utf8_toString returning_callback
       ([StdoutData [0x68, 0x65, 0x6C], StderrData [0x77, 0x61, 0x72, 0x6E],
         StdoutData [0x6C, 0x6F, 0x0A, 0xC3, 0xA9], StdoutData [0x0A, 0x0A, 0x65, 0x6E, 0x64]] @
        [Close (Some 0) None])) =
     [OnStdoutLine [0x68, 0x65, 0x6C, 0x6C, 0x6F], OnStdoutLine [0xE9],
      OnStdoutLine [0x65, 0x6E, 0x64],
      Resolve (SpawnResult [] [0x77, 0x61, 0x72, 0x6E] (Some 0) None False)]"
proof -
  let ?evs = "[StdoutData [0x68, 0x65, 0x6C], StderrData [0x77, 0x61, 0x72, 0x6E],
        StdoutData [0x6C, 0x6F, 0x0A, 0xC3, 0xA9], StdoutData [0x0A, 0x0A, 0x65, 0x6E, 0x64]]"
  have a: "never_throws returning_callback"
    by (simp add: never_throws_def returning_callback_def)
  have h: "\<not> list_ex terminal ?evs"
    by simp
  have d: "concat (map utf8_toString (stdout_chunks ?evs)) =
      utf8_toString (concat (stdout_chunks ?evs))"
    by (simp add: REPLACEMENT_def continuation_def code_point_units_def)
  have k: "child_killed (runCommandStreaming utf8_toString returning_callback ?evs) = False"
    by (simp add: exec_eval)
  have n: "nonempty_lines (utf8_toString (concat (stdout_chunks ?evs))) =
      [[0x68, 0x65, 0x6C, 0x6C, 0x6F], [0xE9], [0x65, 0x6E, 0x64]]"
    by (simp add: nonempty_lines_def NL_def REPLACEMENT_def continuation_def
        code_point_units_def)
  have e: "concat (map utf8_toString (stderr_chunks ?evs)) = [0x77, 0x61, 0x72, 0x6E]"
    by simp
  from C1_lines_are_nonempty_pieces[OF a h d, of "Some 0" None] show ?thesis
    unfolding k n e using a h d by simp
qed

text \<open>
  Counterexample to C1 as stated: on the single chunk \<open>a\<newline>\<newline>b\<newline>\<close> the pieces between the
  newlines are \<open>a\<close>, the empty line and \<open>b\<close>, and the callback gets \<open>a\<close> and \<open>b\<close> only.
\<close>

theorem C1_counterexample:
  "stdout_lines (trace (runCommandStreaming utf8_toString returning_callback
      [StdoutData [0x61, 0x0A, 0x0A, 0x62, 0x0A], Close (Some 0) None])) = [[0x61], [0x62]] \<and>
   claimed_lines (utf8_toString (concat [[0x61, 0x0A, 0x0A, 0x62, 0x0A]])) =
     [[0x61], [], [0x62]] \<and>
   stdout_lines (trace (runCommandStreaming utf8_toString returning_callback
      [StdoutData [0x61, 0x0A, 0x0A, 0x62, 0x0A], Close (Some 0) None])) \<noteq>
   claimed_lines (utf8_toString (concat [[0x61, 0x0A, 0x0A, 0x62, 0x0A]]))"
  by (simp add: exec_eval claimed_lines_def)

text \<open>
  Outside the amended claim. Each chunk is decoded on its own, so a character whose bytes
  are cut by a chunk boundary is lost: for \<open>caf\<close> and the first byte of \<open>U+00E9\<close> in one
  chunk and its second byte in the next, the callback gets \<open>caf\<close> followed by two
  replacement characters, where the decoded concatenation has \<open>caf\<close> and \<open>U+00E9\<close>.
\<close>

lemma character_cut_by_chunk_boundary:
  "stdout_lines (trace (runCommandStreaming utf8_toString returning_callback
      [StdoutData [0x63, 0x61, 0x66, 0xC3], StdoutData [0xA9, 0x0A], Close (Some 0) None])) =
     [[0x63, 0x61, 0x66, 0xFFFD, 0xFFFD]] \<and>
   nonempty_lines (utf8_toString (concat [[0x63, 0x61, 0x66, 0xC3], [0xA9, 0x0A]])) =
     [[0x63, 0x61, 0x66, 0xE9]]"
  by (simp add: exec_eval nonempty_lines_def)

text \<open>
  Outside the amended claim as well. A callback that throws inside the loop ends the data
  handler with the rest of the chunk in the buffer; with no later newline the close handler
  passes that rest to the callback whole, newlines included.
\<close>

lemma throw_in_loop_leaves_rest_in_buffer:
  "trace (runCommandStreaming utf8_toString throws_on_null
      [StdoutData [0x6E, 0x75, 0x6C, 0x6C, 0x0A, 0x61, 0x0A, 0x62], Close (Some 0) None]) =
     [OnStdoutLine [0x6E, 0x75, 0x6C, 0x6C], Uncaught TypeError,
      OnStdoutLine [0x61, 0x0A, 0x62],
      Resolve (SpawnResult [] [] (Some 0) None False)]"
  by (simp add: exec_eval)

text \<open>
  Claim C7 does not hold of the code. The close handler sets \<open>settled\<close>, then passes the
  remainder of the buffer to \<open>onStdoutLine\<close>, then calls \<open>resolve\<close>. For a child that
  prints \<open>null\<close> with no newline and exits, and a callback that throws on that line (as
  \<open>handleLine\<close> does), the exception leaves the handler before \<open>resolve\<close>: the promise is
  not settled by the close event, and since \<open>settled\<close> is set, by no event after it.
\<close>

theorem C7_throwing_flush_leaves_promise_pending:
  "trace (runCommandStreaming utf8_toString throws_on_null
      [StdoutData (bytes ''null''), Close (Some 0) None]) =
     [OnStdoutLine (str ''null''), Uncaught TypeError] \<and>
   settled (runCommandStreaming utf8_toString throws_on_null
      ([StdoutData (bytes ''null''), Close (Some 0) None] @ post)) \<and>
   settlements (trace (runCommandStreaming utf8_toString throws_on_null
      ([StdoutData (bytes ''null''), Close (Some 0) None] @ post))) = []"
proof -
  let ?s = "runCommandStreaming utf8_toString throws_on_null
      [StdoutData (bytes ''null''), Close (Some 0) None]"
  have t: "trace ?s = [OnStdoutLine (str ''null''), Uncaught TypeError]"
    by (simp add: exec_eval)
  have s: "settled ?s"
    by (simp add: exec_eval)
  have r: "runCommandStreaming utf8_toString throws_on_null
      ([StdoutData (bytes ''null''), Close (Some 0) None] @ post) =
      foldl (exec_step utf8_toString throws_on_null) ?s post"
    by (rule run_append_list)
  from settled_steps[OF s, of utf8_toString throws_on_null post] t show ?thesis
    unfolding r by simp
qed

text \<open>
  Claim C8. Whatever the child writes, however it is decoded and whatever the callback
  does, every result the promise is resolved with has the empty string as its \<open>stdout\<close>.
\<close>

theorem C8_stdout_always_empty:
  "Resolve r \<in> set (trace (runCommandStreaming toString onStdoutLine evs)) \<Longrightarrow> stdout r = []"
  using resolve_stdout_all by blast

text \<open>Witness for C8: a child that prints the line \<open>data\<close> and exits.\<close>

theorem C8_witness:
  "Resolve (last_result (trace (runCommandStreaming utf8_toString returning_callback
       [StdoutData [0x64, 0x61, 0x74, 0x61, 0x0A], Close (Some 0) None])))
     \<in> set (trace (runCommandStreaming utf8_toString returning_callback
       [StdoutData [0x64, 0x61, 0x74, 0x61, 0x0A], Close (Some 0) None])) \<and>
   stdout (last_result (trace (runCommandStreaming utf8_toString returning_callback
       [StdoutData [0x64, 0x61, 0x74, 0x61, 0x0A], Close (Some 0) None]))) = []"
proof -
  have m: "Resolve (last_result (trace (runCommandStreaming utf8_toString returning_callback
       [StdoutData [0x64, 0x61, 0x74, 0x61, 0x0A], Close (Some 0) None])))
     \<in> set (trace (runCommandStreaming utf8_toString returning_callback
       [StdoutData [0x64, 0x61, 0x74, 0x61, 0x0A], Close (Some 0) None]))"
    by (simp add: exec_eval)
  from C8_stdout_always_empty[OF m] m show ?thesis
    by simp
qed

section \<open>Properties of \<open>StreamJsonAccumulator\<close>\<close>

lemma assistant_block_fields:
  "toolNameById (assistant_block this b) = toolNameById this"
  "callbacks (assistant_block this b) = callbacks this"
  "sessionId (assistant_block this b) = sessionId this"
  "usage (assistant_block this b) = usage this"
  "resultText (assistant_block this b) = resultText this @ block_text b"
  by (auto simp: assistant_block_def block_text_def Let_def split: option.splits json.splits)

lemma handle_assistant_fields:
  "toolNameById (foldl assistant_block this bs) = toolNameById this"
  "callbacks (foldl assistant_block this bs) = callbacks this"
  "resultText (foldl assistant_block this bs) = resultText this @ concat (map block_text bs)"
  by (induction bs arbitrary: this) (simp_all add: assistant_block_fields)

lemma handle_system_fields:
  "resultText (handle_system this v) = resultText this"
  "toolNameById (handle_system this v) = toolNameById this"
  "callbacks (handle_system this v) = callbacks this"
  "calls (handle_system this v) = calls this"
  by (simp_all add: handle_system_def)

lemma handle_tool_use_fields:
  "resultText (handle_tool_use this v) = resultText this"
  "callbacks (handle_tool_use this v) = callbacks this"
  by (simp_all add: handle_tool_use_def Let_def)

lemma handle_tool_result_fields:
  "resultText (handle_tool_result num this v) = resultText this"
  "toolNameById (handle_tool_result num this v) = toolNameById this"
  "callbacks (handle_tool_result num this v) = callbacks this"
  by (simp_all add: handle_tool_result_def Let_def)

lemma handle_result_fields:
  "toolNameById (handle_result this v) = toolNameById this"
  "callbacks (handle_result this v) = callbacks this"
  "calls (handle_result this v) = calls this"
  by (simp_all add: handle_result_def Let_def split: option.splits json.splits)

lemma handle_result_resultText:
  "resultText (handle_result this v) =
     (case property v ''result'' of
        Some (JStr r) \<Rightarrow> if r = [] then resultText this else r
      | _ \<Rightarrow> resultText this)"
  by (simp add: handle_result_def Let_def split: option.splits json.splits)

lemma result_text_of_Some:
  "v \<noteq> JNull \<Longrightarrow> result_text_of (Some v) =
     (if property v ''type'' = Some (JStr ''result'') then
        (case property v ''result'' of
           Some (JStr r) \<Rightarrow> if r = [] then None else Some r
         | _ \<Rightarrow> None)
      else None)"
  by (cases v) (simp_all add: result_text_of_def)

lemma assistant_text_of_Some:
  "v \<noteq> JNull \<Longrightarrow> assistant_text_of (Some v) =
     (if property v ''type'' = Some (JStr ''assistant'')
      then concat (map block_text (assistant_content v)) else [])"
  by (cases v) (simp_all add: assistant_text_of_def)

lemma handleParsed_resultText:
  assumes "handleParsed num this v = Inr this'"
  shows "resultText this' =
     (case result_text_of (Some v) of
        Some r \<Rightarrow> r
      | None \<Rightarrow> resultText this @ assistant_text_of (Some v))"
proof -
  from assms have nn: "v \<noteq> JNull"
    by (auto simp: handleParsed_def)
  consider (sys) "property v ''type'' = Some (JStr ''system'')"
    | (asst) "property v ''type'' = Some (JStr ''assistant'')"
    | (tu) "property v ''type'' = Some (JStr ''tool_use'')"
    | (tr) "property v ''type'' = Some (JStr ''tool_result'')"
    | (res) "property v ''type'' = Some (JStr ''result'')"
    | (other) "property v ''type'' \<noteq> Some (JStr ''system'')"
        "property v ''type'' \<noteq> Some (JStr ''assistant'')"
        "property v ''type'' \<noteq> Some (JStr ''tool_use'')"
        "property v ''type'' \<noteq> Some (JStr ''tool_result'')"
        "property v ''type'' \<noteq> Some (JStr ''result'')"
    by blast
  then show ?thesis
  proof cases
    case sys
    with assms nn show ?thesis
      by (auto simp: handleParsed_def result_text_of_Some assistant_text_of_Some handle_system_fields)
  next
    case asst
    with assms nn show ?thesis
      by (auto simp: handleParsed_def result_text_of_Some assistant_text_of_Some
          handle_assistant_def handle_assistant_fields)
  next
    case tu
    with assms nn show ?thesis
      by (auto simp: handleParsed_def result_text_of_Some assistant_text_of_Some handle_tool_use_fields)
  next
    case tr
    with assms nn show ?thesis
      by (auto simp: handleParsed_def result_text_of_Some assistant_text_of_Some handle_tool_result_fields)
  next
    case res
    with assms nn show ?thesis
      by (auto simp: handleParsed_def result_text_of_Some assistant_text_of_Some
          handle_result_resultText split: option.splits json.splits)
  next
    case other
    with assms nn show ?thesis
      by (auto simp: handleParsed_def result_text_of_Some assistant_text_of_Some)
  qed
qed

lemma handleLine_resultText:
  assumes "handleLine JSON_parse num this line = Inr this'"
  shows "resultText this' =
     (case result_text_of (JSON_parse line) of
        Some r \<Rightarrow> r
      | None \<Rightarrow> resultText this @ assistant_text_of (JSON_parse line))"
proof (cases "JSON_parse line")
  case None
  with assms show ?thesis
    by (simp add: handleLine_def result_text_of_def assistant_text_of_def)
next
  case (Some v)
  from assms Some have "handleParsed num this v = Inr this'"
    by (simp add: handleLine_def)
  from handleParsed_resultText[OF this] show ?thesis
    unfolding Some .
qed

lemma handleLines_resultText:
  "handleLines JSON_parse num this lines = Inr this' \<Longrightarrow>
   resultText this' = text_after (resultText this) (map JSON_parse lines)"
proof (induction lines arbitrary: this)
  case Nil
  then show ?case by simp
next
  case (Cons line rest)
  then obtain this1 where s1: "handleLine JSON_parse num this line = Inr this1"
    and s2: "handleLines JSON_parse num this1 rest = Inr this'"
    by (auto split: sum.splits)
  from Cons.IH[OF s2] handleLine_resultText[OF s1] show ?case
    by simp
qed

lemma text_after_no_result:
  "\<forall>p \<in> set ps. result_text_of p = None \<Longrightarrow>
   text_after t ps = t @ concat (map assistant_text_of ps)"
  by (induction ps arbitrary: t) auto

lemma text_after_append: "text_after t (ps @ qs) = text_after (text_after t ps) qs"
  by (induction ps arbitrary: t) auto

lemma text_after_last_result:
  assumes "result_text_of p = Some r" and "\<forall>q \<in> set post. result_text_of q = None"
  shows "text_after t (pre @ p # post) = r @ concat (map assistant_text_of post)"
  using assms by (simp add: text_after_append text_after_no_result)


lemma handle_tool_use_registry:
  "toolNameById (handle_tool_use this v) =
     (if string_or (property v ''tool_use_id'') [] \<noteq> []
      then (toolNameById this)(string_or (property v ''tool_use_id'') [] \<mapsto>
             string_or (property v ''name'') ''unknown'')
      else toolNameById this)"
  by (simp add: handle_tool_use_def Let_def)

lemma handle_tool_use_calls:
  "calls (handle_tool_use this v) =
     calls this @
     (if onToolUse (callbacks this)
      then [ToolUse (string_or (property v ''name'') ''unknown'')
              (string_or (property v ''tool_use_id'') []) (tool_use_args v)]
      else [])"
  by (simp add: handle_tool_use_def Let_def)

lemma handleParsed_registry:
  assumes "handleParsed num this v = Inr this'"
  shows "toolNameById this' =
     (if property v ''type'' = Some (JStr ''tool_use'') \<and>
         string_or (property v ''tool_use_id'') [] \<noteq> []
      then (toolNameById this)(string_or (property v ''tool_use_id'') [] \<mapsto>
             string_or (property v ''name'') ''unknown'')
      else toolNameById this)"
  using assms
  by (auto simp: handleParsed_def Let_def handle_system_fields handle_assistant_def
      handle_assistant_fields handle_tool_use_registry handle_tool_result_fields
      handle_result_fields split: if_splits)

lemma handleLine_dom:
  assumes "handleLine JSON_parse num this line = Inr this'"
  shows "dom (toolNameById this) \<subseteq> dom (toolNameById this')"
proof (cases "JSON_parse line")
  case None
  with assms show ?thesis by (simp add: handleLine_def)
next
  case (Some v)
  with assms have "handleParsed num this v = Inr this'"
    by (simp add: handleLine_def)
  from handleParsed_registry[OF this] show ?thesis
    by (auto split: if_splits)
qed

lemma string_or_eq: "string_or p [] = i \<Longrightarrow> i \<noteq> [] \<Longrightarrow> p = Some (JStr i)"
  by (cases "(p, [] :: string)" rule: string_or.cases) auto

lemma handleLine_unregistered:
  assumes "handleLine JSON_parse num this line = Inr this'"
    and "\<not> registers (JSON_parse line) i"
  shows "toolNameById this' i = toolNameById this i"
proof (cases "JSON_parse line")
  case None
  with assms show ?thesis by (simp add: handleLine_def)
next
  case (Some v)
  with assms have h: "handleParsed num this v = Inr this'"
    by (simp add: handleLine_def)
  then have nn: "v \<noteq> JNull"
    by (auto simp: handleParsed_def)
  with assms(2) Some have nr: "\<not> (property v ''type'' = Some (JStr ''tool_use'') \<and>
          property v ''tool_use_id'' = Some (JStr i))"
    by (cases v) (simp_all add: registers_def)
  show ?thesis
  proof (cases "i = []")
    case True
    with handleParsed_registry[OF h] show ?thesis by (auto split: if_splits)
  next
    case False
    with handleParsed_registry[OF h] nr string_or_eq[of "property v ''tool_use_id''" i]
    show ?thesis by (auto split: if_splits)
  qed
qed

lemma handleLines_dom:
  "handleLines JSON_parse num this lines = Inr this' \<Longrightarrow>
   dom (toolNameById this) \<subseteq> dom (toolNameById this')"
proof (induction lines arbitrary: this)
  case Nil
  then show ?case by simp
next
  case (Cons line rest)
  then obtain this1 where s1: "handleLine JSON_parse num this line = Inr this1"
    and s2: "handleLines JSON_parse num this1 rest = Inr this'"
    by (auto split: sum.splits)
  from Cons.IH[OF s2] handleLine_dom[OF s1] show ?case
    by blast
qed

lemma handleLines_unregistered:
  "handleLines JSON_parse num this lines = Inr this' \<Longrightarrow>
   \<forall>l \<in> set lines. \<not> registers (JSON_parse l) i \<Longrightarrow>
   toolNameById this' i = toolNameById this i"
proof (induction lines arbitrary: this)
  case Nil
  then show ?case by simp
next
  case (Cons line rest)
  then obtain this1 where s1: "handleLine JSON_parse num this line = Inr this1"
    and s2: "handleLines JSON_parse num this1 rest = Inr this'"
    by (auto split: sum.splits)
  from Cons.IH[OF s2] handleLine_unregistered[OF s1] Cons.prems(2) show ?case
    by simp
qed

lemma handleLine_no_empty_key:
  assumes "handleLine JSON_parse num this line = Inr this'"
    and "toolNameById this [] = None"
  shows "toolNameById this' [] = None"
proof (cases "JSON_parse line")
  case None
  with assms show ?thesis by (simp add: handleLine_def)
next
  case (Some v)
  with assms have "handleParsed num this v = Inr this'"
    by (simp add: handleLine_def)
  from handleParsed_registry[OF this] assms(2) show ?thesis
    by (auto split: if_splits)
qed

lemma handleLines_no_empty_key:
  "handleLines JSON_parse num this lines = Inr this' \<Longrightarrow>
   toolNameById this [] = None \<Longrightarrow> toolNameById this' [] = None"
proof (induction lines arbitrary: this)
  case Nil
  then show ?case by simp
next
  case (Cons line rest)
  then obtain this1 where s1: "handleLine JSON_parse num this line = Inr this1"
    and s2: "handleLines JSON_parse num this1 rest = Inr this'"
    by (auto split: sum.splits)
  from Cons.IH[OF s2] handleLine_no_empty_key[OF s1] Cons.prems(2) show ?case
    by simp
qed

text \<open>
  Claim C2, as amended. For every sequence of lines fed to a new accumulator, the final
  text is the one \<open>text_after\<close> computes: a non-empty result text replaces the text, and
  assistant text is appended to it. So without a result line that carries text it is the
  concatenation of the non-empty text blocks of the assistant lines, and otherwise it is
  the text of the last such result line followed by the text blocks of the assistant lines
  that came after it.
\<close>

theorem C2_final_text:
  assumes "handleLines JSON_parse num (new_StreamJsonAccumulator cbs) lines = Inr this"
  shows "finalize_text this = text_after [] (map JSON_parse lines) \<and>
     ((\<forall>l \<in> set lines. result_text_of (JSON_parse l) = None) \<longrightarrow>
        finalize_text this = concat (map (\<lambda>l. assistant_text_of (JSON_parse l)) lines)) \<and>
     (\<forall>pre l post r.
        lines = pre @ l # post \<and> result_text_of (JSON_parse l) = Some r \<and>
        (\<forall>q \<in> set post. result_text_of (JSON_parse q) = None) \<longrightarrow>
        finalize_text this = r @ concat (map (\<lambda>l. assistant_text_of (JSON_parse l)) post))"
proof -
  have t: "finalize_text this = text_after [] (map JSON_parse lines)"
    using handleLines_resultText[OF assms]
    by (simp add: finalize_text_def new_StreamJsonAccumulator_def)
  have a: "finalize_text this = concat (map (\<lambda>l. assistant_text_of (JSON_parse l)) lines)"
    if "\<forall>l \<in> set lines. result_text_of (JSON_parse l) = None"
    using that text_after_no_result[of "map JSON_parse lines" "[]"]
    by (simp add: t comp_def)
  have b: "finalize_text this = r @ concat (map (\<lambda>l. assistant_text_of (JSON_parse l)) post)"
    if "lines = pre @ l # post" "result_text_of (JSON_parse l) = Some r"
      "\<forall>q \<in> set post. result_text_of (JSON_parse q) = None" for pre l post r
    using that text_after_last_result[of "JSON_parse l" r "map JSON_parse post" "[]" "map JSON_parse pre"]
    by (simp add: t comp_def)
  from t a b show ?thesis by blast
qed

text \<open>
  Witness for C2: assistant text \<open>partial\<close> then the result \<open>final\<close> gives \<open>final\<close>; two
  assistant lines and no result line give their concatenation.
\<close>

theorem C2_witness:
  "map_sum id finalize_text
     (handleLines ex_parse (\<lambda>n. []) (new_StreamJsonAccumulator all_callbacks)
        [''assistant partial'', ''result final'']) = Inr ''final'' \<and>
   map_sum id finalize_text
     (handleLines ex_parse (\<lambda>n. []) (new_StreamJsonAccumulator all_callbacks)
        [''assistant partial'', ''assistant more'']) = Inr ''partialmore''"
proof -
  obtain t1 where r1: "handleLines ex_parse (\<lambda>n. []) (new_StreamJsonAccumulator all_callbacks)
        [''assistant partial'', ''result final''] = Inr t1"
    by (simp add: handleLine_def handleParsed_def ex_parse_def parse_as_def assistant_line_def
        result_line_def)
  obtain t2 where r2: "handleLines ex_parse (\<lambda>n. []) (new_StreamJsonAccumulator all_callbacks)
        [''assistant partial'', ''assistant more''] = Inr t2"
    by (simp add: handleLine_def handleParsed_def ex_parse_def parse_as_def assistant_line_def)
  have p1: "[''assistant partial'', ''result final''] = [''assistant partial''] @ ''result final'' # []"
    by simp
  have e1: "result_text_of (ex_parse ''result final'') = Some ''final''"
    by code_simp
  have e2: "\<forall>l \<in> set [''assistant partial'', ''assistant more'']. result_text_of (ex_parse l) = None"
    by code_simp
  have e3: "concat (map (\<lambda>l. assistant_text_of (ex_parse l)) [''assistant partial'', ''assistant more''])
      = ''partialmore''"
    by code_simp
  from C2_final_text[OF r1] p1 e1 have "finalize_text t1 = ''final''"
    by fastforce
  moreover from C2_final_text[OF r2] e2 e3 have "finalize_text t2 = ''partialmore''"
    by simp
  ultimately show ?thesis
    unfolding r1 r2 by simp
qed

text \<open>
  Counterexample to C2 as stated: a result line with the text \<open>final\<close> followed by an
  assistant line with the text \<open>more\<close>. The claim promises \<open>final\<close>; the accumulator
  appends to it and returns \<open>finalmore\<close>.
\<close>

theorem C2_counterexample:
  "map_sum id finalize_text
     (handleLines ex_parse (\<lambda>n. []) (new_StreamJsonAccumulator all_callbacks)
        [''result final'', ''assistant more'']) = Inr ''finalmore'' \<and>
   claimed_text (map ex_parse [''result final'', ''assistant more'']) = ''final''"
  by code_simp

text \<open>
  Claim C3, as amended. A \<open>tool_result\<close> line makes one call of the \<open>onToolResult\<close>
  observer, where one is given. Its name is the registry's name for the call id, the call
  id is the \<open>tool_use_id\<close> when that is a string and empty otherwise, and \<open>isError\<close> holds
  only for \<open>is_error: true\<close>. Its result is \<open>content\<close> when that is a string, else \<open>output\<close>
  when that is a string, else the JSON text of \<open>content\<close> when that is neither absent nor
  \<open>null\<close>, else the JSON text of \<open>output\<close> when that is neither absent nor \<open>null\<close>, else the
  JSON text of the empty string, which is the two quotation marks.
\<close>

theorem C3_tool_result_observer:
  assumes "JSON_parse line = Some parsed"
    and "property parsed ''type'' = Some (JStr ''tool_result'')"
    and "StreamJsonCallbacks.onToolResult (callbacks this)"
  shows "handleLine JSON_parse num this line =
       Inr (this\<lparr>calls := calls this @
         [ToolResult (getToolName this (string_or (property parsed ''tool_use_id'') []))
            (string_or (property parsed ''tool_use_id'') [])
            (property parsed ''is_error'' = Some (JBool True))
            (tool_result_text num parsed)]\<rparr>) \<and>
     (\<forall>s. property parsed ''content'' = Some (JStr s) \<longrightarrow> tool_result_text num parsed = s) \<and>
     (\<forall>s. \<not> is_string (property parsed ''content'') \<and> property parsed ''output'' = Some (JStr s)
        \<longrightarrow> tool_result_text num parsed = s) \<and>
     (\<forall>v. \<not> is_string (property parsed ''content'') \<and> \<not> is_string (property parsed ''output'') \<and>
          property parsed ''content'' = Some v \<and> v \<noteq> JNull
        \<longrightarrow> tool_result_text num parsed = JSON_stringify num v) \<and>
     (\<forall>v. nullish (property parsed ''content'') \<and> \<not> is_string (property parsed ''output'') \<and>
          property parsed ''output'' = Some v \<and> v \<noteq> JNull
        \<longrightarrow> tool_result_text num parsed = JSON_stringify num v) \<and>
     (nullish (property parsed ''content'') \<and> nullish (property parsed ''output'')
        \<longrightarrow> tool_result_text num parsed = [CHR 0x22, CHR 0x22])"
proof -
  from assms(2) have nn: "parsed \<noteq> JNull"
    by auto
  have call: "handleLine JSON_parse num this line =
       Inr (this\<lparr>calls := calls this @
         [ToolResult (getToolName this (string_or (property parsed ''tool_use_id'') []))
            (string_or (property parsed ''tool_use_id'') [])
            (property parsed ''is_error'' = Some (JBool True))
            (tool_result_text num parsed)]\<rparr>)"
    using assms nn
    by (simp add: handleLine_def handleParsed_def handle_tool_result_def Let_def)
  have c1: "tool_result_text num parsed = s" if "property parsed ''content'' = Some (JStr s)" for s
    using that by (simp add: tool_result_text_def)
  have c2: "tool_result_text num parsed = s"
    if "\<not> is_string (property parsed ''content'')" "property parsed ''output'' = Some (JStr s)" for s
    using that
    by (cases "property parsed ''content''" rule: is_string.cases)
       (simp_all add: tool_result_text_def)
  have c3: "tool_result_text num parsed = JSON_stringify num v"
    if "\<not> is_string (property parsed ''content'')" "\<not> is_string (property parsed ''output'')"
      "property parsed ''content'' = Some v" "v \<noteq> JNull" for v
    using that
    by (cases "property parsed ''output''" rule: is_string.cases; cases v)
       (simp_all add: tool_result_text_def coalesce_def nullish_def)
  have c4: "tool_result_text num parsed = JSON_stringify num v"
    if "nullish (property parsed ''content'')" "\<not> is_string (property parsed ''output'')"
      "property parsed ''output'' = Some v" "v \<noteq> JNull" for v
    using that
    by (cases v) (auto simp: tool_result_text_def coalesce_def nullish_def)
  have c5: "tool_result_text num parsed = [CHR 0x22, CHR 0x22]"
    if "nullish (property parsed ''content'')" "nullish (property parsed ''output'')"
    using that
    by (auto simp: tool_result_text_def coalesce_def nullish_def QuoteJSONString_def)
  from call c1 c2 c3 c4 c5 show ?thesis
    by blast
qed

text \<open>
  Witness for C3: a result with a string \<open>content\<close> for a registered call id, and a result
  with neither field.
\<close>

theorem C3_witness:
  "map_sum id calls
     (handleLines ex_parse (\<lambda>n. []) (new_StreamJsonAccumulator all_callbacks)
        [''tool_use tu-1 Read'', ''tool_result content'']) =
     Inr [ToolUse ''Read'' ''tu-1'' (JObj []), ToolResult ''Read'' ''tu-1'' False ''done''] \<and>
   map_sum id calls
     (handleLines ex_parse (\<lambda>n. []) (new_StreamJsonAccumulator all_callbacks) [''tool_result'']) =
     Inr [ToolResult ''unknown'' [] False [CHR 0x22, CHR 0x22]]"
proof -
  let ?acc = "new_StreamJsonAccumulator all_callbacks :: nat StreamJsonAccumulator"
  let ?a1 = "handle_tool_use ?acc (tool_use_line ''tu-1'' ''Read'')"
  have u: "handleLine ex_parse (\<lambda>n. []) ?acc ''tool_use tu-1 Read'' = Inr ?a1"
    by (simp add: handleLine_def handleParsed_def ex_parse_def parse_as_def tool_use_line_def)
  have cb: "StreamJsonCallbacks.onToolResult (callbacks ?a1)"
    "StreamJsonCallbacks.onToolResult (callbacks ?acc)"
    by (simp_all add: handle_tool_use_fields new_StreamJsonAccumulator_def all_callbacks_def)
  have p1: "ex_parse ''tool_result content'' =
      Some (tool_result_line [(''tool_use_id'', JStr ''tu-1''), (''content'', JStr ''done'')])"
    and p2: "ex_parse ''tool_result'' = Some (tool_result_line [])"
    by (simp_all add: ex_parse_def parse_as_def)
  have t: "property (tool_result_line fs :: nat json) ''type'' = Some (JStr ''tool_result'')" for fs
    by (simp add: tool_result_line_def)
  have n1: "getToolName ?a1 ''tu-1'' = ''Read''"
    by (simp add: getToolName_def handle_tool_use_registry tool_use_line_def)
  have c1: "calls ?a1 = [ToolUse ''Read'' ''tu-1'' (JObj [])]"
    by (simp add: handle_tool_use_calls tool_use_line_def new_StreamJsonAccumulator_def
        all_callbacks_def tool_use_args_def coalesce_def nullish_def)
  have n2: "getToolName ?acc [] = ''unknown''"
    by (simp add: getToolName_def new_StreamJsonAccumulator_def)
  from C3_tool_result_observer[of ex_parse "''tool_result content''"
      "tool_result_line [(''tool_use_id'', JStr ''tu-1''), (''content'', JStr ''done'')]"
      ?a1 "\<lambda>n. []"] p1 t cb(1) u n1 c1
  have "map_sum id calls (handleLines ex_parse (\<lambda>n. []) ?acc
        [''tool_use tu-1 Read'', ''tool_result content'']) =
     Inr [ToolUse ''Read'' ''tu-1'' (JObj []), ToolResult ''Read'' ''tu-1'' False ''done'']"
    by (simp add: tool_result_line_def)
  moreover
  from C3_tool_result_observer[of ex_parse "''tool_result''" "tool_result_line []"
      ?acc "\<lambda>n. []"] p2 t cb(2) n2
  have "map_sum id calls (handleLines ex_parse (\<lambda>n. []) ?acc [''tool_result'']) =
     Inr [ToolResult ''unknown'' [] False [CHR 0x22, CHR 0x22]]"
    by (simp add: tool_result_line_def nullish_def new_StreamJsonAccumulator_def)
  ultimately show ?thesis
    by simp
qed

text \<open>
  Counterexample to C3 as stated: for a \<open>tool_result\<close> line with neither \<open>content\<close> nor
  \<open>output\<close> the claim promises the empty string; the observer gets the two quotation marks
  that are the JSON text of the empty string.
\<close>

theorem C3_counterexample:
  "map_sum id (map cr_result \<circ> calls)
     (handleLine ex_parse (\<lambda>n. []) (new_StreamJsonAccumulator all_callbacks) ''tool_result'') =
     Inr [[CHR 0x22, CHR 0x22]] \<and>
   [CHR 0x22, CHR 0x22] \<noteq> ([] :: string)"
  by code_simp

text \<open>
  Claim C5, where the code departs from it. The line \<open>null\<close> is valid JSON with no type
  discriminator, and \<open>handleLine\<close> throws a \<open>TypeError\<close> on it: \<^verbatim>\<open>parsed.type\<close> is read
  outside the \<^verbatim>\<open>try\<close> block.
\<close>

theorem C5_null_line_throws:
  "handleLine ex_parse num this ''null'' = Inl TypeError"
  by (simp add: handleLine_def ex_parse_def parse_as_def handleParsed_def)

text \<open>
  Every other line of the claim is ignored as it says: a line that does not parse, and a
  line that parses to a value other than \<open>null\<close> whose \<open>type\<close> is none of the five, leave
  the accumulator as it is, calls included, and throw nothing.
\<close>

lemma handleLine_ignored:
  assumes "JSON_parse line = None \<or>
     (\<exists>v. JSON_parse line = Some v \<and> v \<noteq> JNull \<and> \<not> recognised v)"
  shows "handleLine JSON_parse num this line = Inr this"
  using assms
  by (auto simp: handleLine_def handleParsed_def recognised_def known_types_def Let_def)

text \<open>
  Claim C6. After a \<open>tool_use\<close> line with the id \<open>tu-1\<close> and the name \<open>Read\<close>, the registry
  resolves \<open>tu-1\<close> to \<open>Read\<close>. After any sequence of lines fed to a new accumulator, an id
  that no \<open>tool_use\<close> line of the sequence carried resolves to \<open>unknown\<close>. No line removes
  an entry of the registry.
\<close>

theorem C6_tool_name_resolution:
  "(JSON_parse line = Some parsed \<and>
    property parsed ''type'' = Some (JStr ''tool_use'') \<and>
    property parsed ''tool_use_id'' = Some (JStr ''tu-1'') \<and>
    property parsed ''name'' = Some (JStr ''Read'')
      \<longrightarrow> (\<exists>this'. handleLine JSON_parse num this line = Inr this' \<and>
                   getToolName this' ''tu-1'' = ''Read'')) \<and>
   (handleLines JSON_parse num (new_StreamJsonAccumulator cbs) lines = Inr final \<and>
    (\<forall>l \<in> set lines. \<not> registers (JSON_parse l) i)
      \<longrightarrow> getToolName final i = ''unknown'') \<and>
   (handleLines JSON_parse num this0 lines' = Inr final'
      \<longrightarrow> dom (toolNameById this0) \<subseteq> dom (toolNameById final'))"
proof (intro conjI impI)
  assume a: "JSON_parse line = Some parsed \<and>
    property parsed ''type'' = Some (JStr ''tool_use'') \<and>
    property parsed ''tool_use_id'' = Some (JStr ''tu-1'') \<and>
    property parsed ''name'' = Some (JStr ''Read'')"
  then have nn: "parsed \<noteq> JNull"
    by auto
  with a have "handleLine JSON_parse num this line = Inr (handle_tool_use this parsed)"
    by (simp add: handleLine_def handleParsed_def)
  moreover from a have "getToolName (handle_tool_use this parsed) ''tu-1'' = ''Read''"
    by (simp add: getToolName_def handle_tool_use_registry)
  ultimately show "\<exists>this'. handleLine JSON_parse num this line = Inr this' \<and>
      getToolName this' ''tu-1'' = ''Read''"
    by blast
next
  assume "handleLines JSON_parse num (new_StreamJsonAccumulator cbs) lines = Inr final \<and>
    (\<forall>l \<in> set lines. \<not> registers (JSON_parse l) i)"
  then have "toolNameById final i = toolNameById (new_StreamJsonAccumulator cbs :: 'a StreamJsonAccumulator) i"
    using handleLines_unregistered by blast
  then show "getToolName final i = ''unknown''"
    by (simp add: getToolName_def new_StreamJsonAccumulator_def)
next
  assume "handleLines JSON_parse num this0 lines' = Inr final'"
  then show "dom (toolNameById this0) \<subseteq> dom (toolNameById final')"
    by (rule handleLines_dom)
qed

text \<open>
  Witness for C6: the line of the claim, then a result line for it; \<open>tu-1\<close> resolves to
  \<open>Read\<close>, the id \<open>tu-9\<close> that no line registered to \<open>unknown\<close>.
\<close>

theorem C6_witness:
  "map_sum id (\<lambda>a. (getToolName a ''tu-1'', getToolName a ''tu-9''))
     (handleLines ex_parse (\<lambda>n. []) (new_StreamJsonAccumulator all_callbacks)
        [''tool_use tu-1 Read'', ''tool_result content'']) = Inr (''Read'', ''unknown'')"
proof -
  let ?acc = "new_StreamJsonAccumulator all_callbacks :: nat StreamJsonAccumulator"
  let ?lines = "[''tool_use tu-1 Read'', ''tool_result content'']"
  obtain a1 where u: "handleLine ex_parse (\<lambda>n. []) ?acc ''tool_use tu-1 Read'' = Inr a1"
    by (simp add: handleLine_def handleParsed_def ex_parse_def parse_as_def tool_use_line_def)
  obtain a2 where r: "handleLine ex_parse (\<lambda>n. []) a1 ''tool_result content'' = Inr a2"
    by (simp add: handleLine_def handleParsed_def ex_parse_def parse_as_def tool_result_line_def)
  have all: "handleLines ex_parse (\<lambda>n. []) ?acc ?lines = Inr a2"
    by (simp add: u r)
  have p: "ex_parse ''tool_use tu-1 Read'' = Some (tool_use_line ''tu-1'' ''Read'') \<and>
      property (tool_use_line ''tu-1'' ''Read'' :: nat json) ''type'' = Some (JStr ''tool_use'') \<and>
      property (tool_use_line ''tu-1'' ''Read'' :: nat json) ''tool_use_id'' = Some (JStr ''tu-1'') \<and>
      property (tool_use_line ''tu-1'' ''Read'' :: nat json) ''name'' = Some (JStr ''Read'')"
    by (simp add: ex_parse_def parse_as_def tool_use_line_def)
  have nr: "\<forall>l \<in> set ?lines. \<not> registers (ex_parse l) ''tu-9''"
    by code_simp
  have nr1: "\<not> registers (ex_parse ''tool_result content'') ''tu-1''"
    by code_simp
  from C6_tool_name_resolution[of ex_parse "''tool_use tu-1 Read''" "tool_use_line ''tu-1'' ''Read''"
      "\<lambda>n. []" ?acc all_callbacks ?lines a2 "''tu-9''" ?acc ?lines a2] p u all nr
  have "getToolName a1 ''tu-1'' = ''Read''" and n9: "getToolName a2 ''tu-9'' = ''unknown''"
    by auto
  moreover from handleLine_unregistered[OF r nr1]
  have "getToolName a2 ''tu-1'' = getToolName a1 ''tu-1''"
    by (simp add: getToolName_def)
  ultimately show ?thesis
    unfolding all by simp
qed

text \<open>
  Claim C10. A \<open>tool_use\<close> line whose \<open>tool_use_id\<close> is absent or not a string still calls
  the \<open>onToolUse\<close> observer, where one is given, with the empty call id and with the name
  \<open>unknown\<close> when the name is not a string; it leaves the registry as it is. After any
  sequence of lines fed to a new accumulator the empty id resolves to \<open>unknown\<close> and is
  not a key of the registry.
\<close>

theorem C10_no_id_no_entry:
  "(JSON_parse line = Some parsed \<and>
    property parsed ''type'' = Some (JStr ''tool_use'') \<and>
    \<not> is_string (property parsed ''tool_use_id'')
      \<longrightarrow> (\<exists>this'. handleLine JSON_parse num this line = Inr this' \<and>
                   toolNameById this' = toolNameById this \<and>
                   calls this' = calls this @
                     (if onToolUse (callbacks this)
                      then [ToolUse (string_or (property parsed ''name'') ''unknown'') []
                              (tool_use_args parsed)]
                      else []))) \<and>
   (handleLines JSON_parse' num' (new_StreamJsonAccumulator cbs) lines = Inr final
      \<longrightarrow> getToolName final [] = ''unknown'' \<and> [] \<notin> dom (toolNameById final))"
proof -
  have first: "\<exists>this'. handleLine JSON_parse num this line = Inr this' \<and>
      toolNameById this' = toolNameById this \<and>
      calls this' = calls this @
        (if onToolUse (callbacks this)
         then [ToolUse (string_or (property parsed ''name'') ''unknown'') [] (tool_use_args parsed)]
         else [])"
    if a: "JSON_parse line = Some parsed \<and>
      property parsed ''type'' = Some (JStr ''tool_use'') \<and>
      \<not> is_string (property parsed ''tool_use_id'')"
  proof -
    from a have nn: "parsed \<noteq> JNull"
      by auto
    from a have i: "string_or (property parsed ''tool_use_id'') [] = []"
      by (cases "property parsed ''tool_use_id''" rule: is_string.cases) simp_all
    from a nn have "handleLine JSON_parse num this line = Inr (handle_tool_use this parsed)"
      by (simp add: handleLine_def handleParsed_def)
    moreover have "toolNameById (handle_tool_use this parsed) = toolNameById this"
      by (simp add: handle_tool_use_registry i)
    moreover have "calls (handle_tool_use this parsed) = calls this @
        (if onToolUse (callbacks this)
         then [ToolUse (string_or (property parsed ''name'') ''unknown'') [] (tool_use_args parsed)]
         else [])"
      by (simp add: handle_tool_use_calls i)
    ultimately show ?thesis
      by blast
  qed
  have second: "getToolName final [] = ''unknown'' \<and> [] \<notin> dom (toolNameById final)"
    if h: "handleLines JSON_parse' num' (new_StreamJsonAccumulator cbs) lines = Inr final"
  proof -
    from handleLines_no_empty_key[OF h] have "toolNameById final [] = None"
      by (simp add: new_StreamJsonAccumulator_def)
    then show ?thesis
      by (auto simp: getToolName_def)
  qed
  from first second show ?thesis
    by blast
qed

text \<open>
  Witness for C10: a \<open>tool_use\<close> line with no id and no name, and one whose id is the
  number 7; the observer is called twice with the empty id, and the empty id resolves to
  \<open>unknown\<close>.
\<close>

theorem C10_witness:
  "map_sum id (\<lambda>a. (calls a, getToolName a [], toolNameById a []))
     (handleLines ex_parse (\<lambda>n. []) (new_StreamJsonAccumulator all_callbacks)
        [''tool_use'', ''tool_use 7'']) =
     Inr ([ToolUse ''unknown'' [] (JObj []), ToolUse ''Bash'' [] (JObj [])], ''unknown'', None)"
proof -
  let ?acc = "new_StreamJsonAccumulator all_callbacks :: nat StreamJsonAccumulator"
  let ?v1 = "JObj [(''type'', JStr ''tool_use'')] :: nat json"
  let ?v2 = "JObj [(''type'', JStr ''tool_use''), (''tool_use_id'', JNum 7),
                   (''name'', JStr ''Bash'')] :: nat json"
  have p1: "ex_parse ''tool_use'' = Some ?v1 \<and> property ?v1 ''type'' = Some (JStr ''tool_use'') \<and>
      \<not> is_string (property ?v1 ''tool_use_id'')"
    and p2: "ex_parse ''tool_use 7'' = Some ?v2 \<and> property ?v2 ''type'' = Some (JStr ''tool_use'') \<and>
      \<not> is_string (property ?v2 ''tool_use_id'')"
    by (simp_all add: ex_parse_def parse_as_def)
  have cb: "onToolUse (callbacks ?acc)" "calls ?acc = []"
    by (simp_all add: new_StreamJsonAccumulator_def all_callbacks_def)
  have args: "tool_use_args ?v1 = JObj []" "tool_use_args ?v2 = JObj []"
    by (simp_all add: tool_use_args_def coalesce_def nullish_def)
  from C10_no_id_no_entry[of ex_parse "''tool_use''" ?v1 "\<lambda>n. []" ?acc
      ex_parse "\<lambda>n. []" all_callbacks "[]" ?acc] p1 cb args
  obtain a1 where s1: "handleLine ex_parse (\<lambda>n. []) ?acc ''tool_use'' = Inr a1"
    and c1: "calls a1 = [ToolUse ''unknown'' [] (JObj [])]"
    by auto
  have cb1: "onToolUse (callbacks a1)"
    using s1 by (auto simp: handleLine_def handleParsed_def ex_parse_def parse_as_def
        handle_tool_use_fields new_StreamJsonAccumulator_def all_callbacks_def)
  from C10_no_id_no_entry[of ex_parse "''tool_use 7''" ?v2 "\<lambda>n. []" a1
      ex_parse "\<lambda>n. []" all_callbacks "[]" ?acc] p2 cb1 args c1
  obtain a2 where s2: "handleLine ex_parse (\<lambda>n. []) a1 ''tool_use 7'' = Inr a2"
    and c2: "calls a2 = [ToolUse ''unknown'' [] (JObj []), ToolUse ''Bash'' [] (JObj [])]"
    by auto
  have all: "handleLines ex_parse (\<lambda>n. []) ?acc [''tool_use'', ''tool_use 7''] = Inr a2"
    by (simp add: s1 s2)
  from C10_no_id_no_entry[of ex_parse "''tool_use''" ?v1 "\<lambda>n. []" ?acc
      ex_parse "\<lambda>n. []" all_callbacks "[''tool_use'', ''tool_use 7'']" a2] all
  have "getToolName a2 [] = ''unknown''" and "toolNameById a2 [] = None"
    by auto
  with c2 show ?thesis
    unfolding all by simp
qed

section \<open>Properties of \<open>stripThinkingSegments\<close> and of the event bridge\<close>

lemma lt_not_space: "\<not> is_space CHR ''<''"
  by (simp add: is_space_def)

lemma canon_letters:
  "canonicalize CHR ''t'' = CHR ''T''" "canonicalize CHR ''h'' = CHR ''H''"
  "canonicalize CHR ''i'' = CHR ''I''" "canonicalize CHR ''n'' = CHR ''N''"
  "canonicalize CHR ''k'' = CHR ''K''" "canonicalize CHR ''g'' = CHR ''G''"
  "canonicalize CHR ''<'' = CHR ''<''" "canonicalize CHR ''>'' = CHR ''>''"
  "canonicalize CHR ''/'' = CHR ''/''"
  by code_simp+

lemma lt_not_canon: "c \<in> set ''thinking'' \<Longrightarrow> canonicalize c \<noteq> canonicalize CHR ''<''"
  by (auto simp: canon_letters)

lemma ci_prefix_length: "ci_prefix p r \<Longrightarrow> length p \<le> length r"
  by (induction p r rule: ci_prefix.induct) auto

lemma ci_prefix_append: "ci_prefix p r \<Longrightarrow> ci_prefix p (r @ y)"
  by (induction p r rule: ci_prefix.induct) auto

lemma ci_prefix_lt:
  "set p \<subseteq> set ''thinking'' \<Longrightarrow> ci_prefix p (r @ CHR ''<'' # ys) = ci_prefix p r"
proof (induction p r rule: ci_prefix.induct)
  case (1 s)
  then show ?case by simp
next
  case (2 p ps)
  then have "canonicalize p \<noteq> canonicalize CHR ''<''"
    using lt_not_canon[of p] by auto
  then show ?case by simp
next
  case (3 p ps c cs)
  then show ?case by simp
qed

lemma match_close_lt:
  "match_close (r @ CHR ''<'' # ys) = map_option (\<lambda>x. x @ CHR ''<'' # ys) (match_close r)"
proof -
  have d: "dropWhile is_space (r @ CHR ''<'' # ys) = dropWhile is_space r @ CHR ''<'' # ys"
    by (simp add: dropWhile_append3 lt_not_space)
  show ?thesis
    unfolding match_close_def d
    by (cases "dropWhile is_space r") (simp_all del: dropWhile_eq_Nil_conv)
qed


lemma match_name_lt:
  "match_name (r @ CHR ''<'' # ys) = map_option (\<lambda>x. x @ CHR ''<'' # ys) (match_name r)"
proof (cases "ci_prefix ''think'' r")
  case False
  then show ?thesis
    by (simp add: match_name_def ci_prefix_lt)
next
  case True
  then have l: "5 \<le> length r"
    using ci_prefix_length[of "''think''" r] by simp
  then have d: "drop 5 (r @ CHR ''<'' # ys) = drop 5 r @ CHR ''<'' # ys"
    by simp
  have t: "ci_prefix ''think'' (r @ CHR ''<'' # ys)"
    using True by (rule ci_prefix_append)
  show ?thesis
  proof (cases "ci_prefix ''ing'' (drop 5 r)")
    case False
    then have f: "\<not> ci_prefix ''ing'' (drop 5 r @ CHR ''<'' # ys)"
      by (simp add: ci_prefix_lt)
    have "match_name (r @ CHR ''<'' # ys) = match_close (drop 5 r @ CHR ''<'' # ys)"
      unfolding match_name_def Let_def d using t f by simp
    moreover have "match_name r = match_close (drop 5 r)"
      unfolding match_name_def Let_def using True False by simp
    ultimately show ?thesis
      by (simp add: match_close_lt)
  next
    case ing: True
    then have "3 \<le> length (drop 5 r)"
      using ci_prefix_length[of "''ing''" "drop 5 r"] by simp
    then have d3: "drop 3 (drop 5 r @ CHR ''<'' # ys) = drop 3 (drop 5 r) @ CHR ''<'' # ys"
      by simp
    have i: "ci_prefix ''ing'' (drop 5 r @ CHR ''<'' # ys)"
      using ing by (rule ci_prefix_append)
    have "match_name (r @ CHR ''<'' # ys) =
        (case match_close (drop 3 (drop 5 r) @ CHR ''<'' # ys) of
           Some r' \<Rightarrow> Some r' | None \<Rightarrow> match_close (drop 5 r @ CHR ''<'' # ys))"
      unfolding match_name_def Let_def d using t i by (simp only: if_True d3)
    moreover have "match_name r =
        (case match_close (drop 3 (drop 5 r)) of
           Some r' \<Rightarrow> Some r' | None \<Rightarrow> match_close (drop 5 r))"
      unfolding match_name_def Let_def using True ing by (simp only: if_True)
    ultimately show ?thesis
      by (simp add: match_close_lt split: option.splits)
  qed
qed

lemma dropWhile_space_lt:
  "dropWhile is_space (t @ CHR ''<'' # ys) = dropWhile is_space t @ CHR ''<'' # ys"
  by (simp add: dropWhile_append3 lt_not_space)

lemma match_name_lt_head: "match_name (CHR ''<'' # ys) = None"
  by (simp add: match_name_def canon_letters)

lemma match_name_Nil: "match_name [] = None"
  by (simp add: match_name_def)

lemma match_name_slash: "match_name (CHR ''/'' # t) = None"
  by (simp add: match_name_def canon_letters)

lemma match_body_lt:
  "match_body (r @ CHR ''<'' # ys) = map_option (\<lambda>x. x @ CHR ''<'' # ys) (match_body r)"
proof (cases "dropWhile is_space r")
  case Nil
  then show ?thesis
    unfolding match_body_def Let_def dropWhile_space_lt
    by (simp add: match_name_lt_head lt_not_space match_name_Nil del: dropWhile_eq_Nil_conv)
next
  case (Cons c1 r2)
  have ns: "\<not> is_space c1"
    using Cons by (metis hd_dropWhile list.sel(1) list.distinct(1))
  have d2: "dropWhile is_space (c1 # t) = c1 # t" for t
    using ns by simp
  show ?thesis
  proof (cases "c1 = CHR ''/''")
    case True
    show ?thesis
      unfolding match_body_def Let_def dropWhile_space_lt Cons
      using True ns
      by (simp add: dropWhile_space_lt match_name_lt match_name_slash split: option.splits)
  next
    case False
    have "match_name ((c1 # r2) @ CHR ''<'' # ys) =
        map_option (\<lambda>x. x @ CHR ''<'' # ys) (match_name (c1 # r2))"
      by (rule match_name_lt)
    then show ?thesis
      unfolding match_body_def Let_def dropWhile_space_lt Cons
      using False ns
      by simp
  qed
qed

lemma match_tag_lt:
  "s \<noteq> [] \<Longrightarrow> match_tag (s @ CHR ''<'' # ys) = match_tag s"
proof (cases s)
  case Nil
  assume "s \<noteq> []"
  with Nil show ?thesis by simp
next
  case (Cons c r0)
  show ?thesis
  proof (cases "match_body r0")
    case None
    with Cons show ?thesis by (simp add: match_tag_def match_body_lt)
  next
    case (Some r)
    with Cons show ?thesis by (simp add: match_tag_def match_body_lt)
  qed
qed

text \<open>
  A text followed by a text that is empty or starts with \<open><\<close>: the matches of the first are
  found as they are, and then those of the second.
\<close>

lemma find_match_append_lt:
  "find_match (x @ CHR ''<'' # ys) =
     (case find_match x of
        Some m \<Rightarrow> Some m
      | None \<Rightarrow> map_option (\<lambda>(i, n). (length x + i, n)) (find_match (CHR ''<'' # ys)))"
proof (induction x)
  case Nil
  show ?case
    by (cases "find_match (CHR ''<'' # ys)") auto
next
  case (Cons c cs)
  have m: "match_tag ((c # cs) @ CHR ''<'' # ys) = match_tag (c # cs)"
    by (rule match_tag_lt) simp
  show ?case
  proof (cases "match_tag (c # cs)")
    case (Some n)
    with m show ?thesis by simp
  next
    case None
    with m Cons.IH show ?thesis
      by (cases "find_match cs"; cases "find_match (CHR ''<'' # ys)") auto
  qed
qed

lemma scan_Nil: "scan t [] = ([], t)"
  by (subst scan.simps) simp

lemma scan_no_match: "find_match s = None \<Longrightarrow> scan t s = (if t then [] else s, t)"
  by (subst scan.simps) simp

lemma scan_match:
  "find_match s = Some (i, n) \<Longrightarrow>
   scan t s =
     ((if t then [] else take i s) @
        fst (scan (CHR ''/'' \<notin> set (map toLowerCase (take n (drop i s)))) (drop (i + n) s)),
      snd (scan (CHR ''/'' \<notin> set (map toLowerCase (take n (drop i s)))) (drop (i + n) s)))"
  by (subst scan.simps) (simp add: case_prod_beta)

lemma scan_append_lt:
  "scan t (x @ CHR ''<'' # ys) =
     (fst (scan t x) @ fst (scan (snd (scan t x)) (CHR ''<'' # ys)),
      snd (scan (snd (scan t x)) (CHR ''<'' # ys)))"
proof (induction t x rule: scan.induct)
  case (1 t s)
  show ?case
  proof (cases "find_match s")
    case None
    let ?y = "CHR ''<'' # ys"
    show ?thesis
    proof (cases "find_match ?y")
      case n2: None
      with None have "find_match (s @ ?y) = None"
        by (simp add: find_match_append_lt)
      with None n2 show ?thesis
        by (simp add: scan_no_match)
    next
      case (Some m)
      obtain i n where m: "m = (i, n)" by (cases m)
      from find_match_length[of ?y i n] Some m have b: "i + n \<le> length ?y"
        by simp
      from None Some m have f: "find_match (s @ ?y) = Some (length s + i, n)"
        by (simp add: find_match_append_lt)
      have d: "drop (length s + i) (s @ ?y) = drop i ?y"
        "drop (length s + i + n) (s @ ?y) = drop (i + n) ?y"
        "take (length s + i) (s @ ?y) = s @ take i ?y"
        by simp_all
      show ?thesis
        using None Some m
        by (simp only: scan_match[OF f] d scan_no_match[OF None] scan_match[of ?y i n])
           (simp split: if_splits)
    qed
  next
    case (Some m)
    obtain i n where m: "m = (i, n)" by (cases m)
    let ?y = "CHR ''<'' # ys"
    from Some m have f: "find_match s = Some (i, n)" by simp
    from find_match_length[OF f] have b: "i + n \<le> length s" by simp
    from f have f2: "find_match (s @ ?y) = Some (i, n)"
      by (simp add: find_match_append_lt)
    have d: "drop (i + n) (s @ ?y) = drop (i + n) s @ ?y"
      "take n (drop i (s @ ?y)) = take n (drop i s)"
      "take i (s @ ?y) = take i s"
      using b by simp_all
    from "1.IH"[OF f refl]
    show ?thesis
      by (simp only: scan_match[OF f2] scan_match[OF f] d) simp
  qed
qed

lemma matchAll_no_match:
  "lastIndex \<le> length s \<Longrightarrow> find_match (drop lastIndex s) = None \<Longrightarrow> matchAll lastIndex s = []"
  by (subst matchAll.simps) (simp add: re_exec_def)

lemma matchAll_match:
  "lastIndex \<le> length s \<Longrightarrow> find_match (drop lastIndex s) = Some (i, n) \<Longrightarrow>
   matchAll lastIndex s =
     (lastIndex + i, take n (drop (lastIndex + i) s)) # matchAll (lastIndex + i + n) s"
  by (subst matchAll.simps) (simp add: re_exec_def)

text \<open>The loop over \<open>matchAll\<close> with its indices computes what \<open>scan\<close> computes.\<close>

lemma strip_loop_scan:
  "lastIndex \<le> length s \<Longrightarrow>
   (case foldl (strip_body s) (result, lastIndex, inThinking) (matchAll lastIndex s) of
      (result', lastIndex', inThinking') \<Rightarrow>
        if \<not> inThinking' then result' @ drop lastIndex' s else result') =
   result @ fst (scan inThinking (drop lastIndex s))"
proof (induction lastIndex s arbitrary: result inThinking rule: matchAll.induct)
  case (1 lastIndex s)
  show ?case
  proof (cases "find_match (drop lastIndex s)")
    case None
    with "1.prems" show ?thesis
      by (simp add: matchAll_no_match scan_no_match)
  next
    case (Some m)
    obtain i n where m: "m = (i, n)" by (cases m)
    with Some have f: "find_match (drop lastIndex s) = Some (i, n)" by simp
    from find_match_length[OF f] "1.prems" have b: "lastIndex + i + n \<le> length s" "0 < n"
      by auto
    have re: "re_exec lastIndex s = (Some (lastIndex + i, n), lastIndex + i + n)"
      using f "1.prems" by (simp add: re_exec_def)
    have len: "length (take n (drop (lastIndex + i) s)) = n"
      using b by simp
    have dd: "drop i (drop lastIndex s) = drop (lastIndex + i) s"
      "drop (i + n) (drop lastIndex s) = drop (lastIndex + i + n) s"
      by (simp_all add: add.commute add.left_commute)
    have body: "strip_body s (result, lastIndex, inThinking)
          (lastIndex + i, take n (drop (lastIndex + i) s)) =
        (if \<not> inThinking then result @ take i (drop lastIndex s) else result,
         lastIndex + i + n,
         CHR ''/'' \<notin> set (map toLowerCase (take n (drop (lastIndex + i) s))))"
      using len by (simp add: strip_body_def slice_def Let_def)
    from "1.IH"[OF re[symmetric] refl refl b(1)]
    show ?thesis
      by (simp only: matchAll_match[OF "1.prems" f] foldl_Cons body scan_match[OF f] dd)
         (simp split: if_splits)
  qed
qed

lemma stripThinkingSegments_re_zero: "snd (stripThinkingSegments_re 0 s) = 0"
  by (simp add: stripThinkingSegments_re_def re_exec_def split: option.splits prod.splits)

lemma stripThinkingSegments_scan: "stripThinkingSegments s = fst (scan False s)"
proof (cases "s = []")
  case True
  then show ?thesis
    by (simp add: stripThinkingSegments_def stripThinkingSegments_re_def scan_Nil)
next
  case False
  show ?thesis
  proof (cases "find_match s")
    case None
    with False show ?thesis
      by (simp add: stripThinkingSegments_def stripThinkingSegments_re_def re_exec_def
          scan_no_match)
  next
    case (Some m)
    obtain i n where m: "m = (i, n)" by (cases m)
    have "(case foldl (strip_body s) ([], 0, False) (matchAll 0 s) of
        (result', lastIndex', inThinking') \<Rightarrow>
          if \<not> inThinking' then result' @ drop lastIndex' s else result') =
        [] @ fst (scan False (drop 0 s))"
      by (rule strip_loop_scan) simp
    with False Some m show ?thesis
      by (simp add: stripThinkingSegments_def stripThinkingSegments_re_def re_exec_def
          case_prod_beta)
  qed
qed

lemma toLowerCase_fix: "toLowerCase CHR ''/'' = CHR ''/''"
  by code_simp

lemma of_char_lower:
  "(of_char (toLowerCase c) :: nat) =
     (if (65 \<le> (of_char c :: nat) \<and> (of_char c :: nat) \<le> 90) \<or>
         (192 \<le> (of_char c :: nat) \<and> (of_char c :: nat) \<le> 222 \<and> (of_char c :: nat) \<noteq> 215)
      then of_char c + 32 else of_char c)"
  by (simp add: toLowerCase_def Let_def of_char_of take_bit_eq_mod)

lemma toLowerCase_slash: "toLowerCase c = CHR ''/'' \<longleftrightarrow> c = CHR ''/''"
proof
  assume "c = CHR ''/''"
  then show "toLowerCase c = CHR ''/''"
    by (simp add: toLowerCase_fix)
next
  assume a: "toLowerCase c = CHR ''/''"
  then have "(of_char (toLowerCase c) :: nat) = 47"
    by simp
  then have "(of_char c :: nat) = 47"
    unfolding of_char_lower by (auto split: if_splits)
  then have "(of_char c :: nat) = of_char CHR ''/''"
    by simp
  then show "c = CHR ''/''"
    by (simp only: of_char_eq_iff)
qed

lemma slash_in_lower: "CHR ''/'' \<in> set (map toLowerCase m) \<longleftrightarrow> CHR ''/'' \<in> set m"
proof (induction m)
  case Nil
  show ?case by simp
next
  case (Cons c m)
  have "(CHR ''/'' = toLowerCase c) = (CHR ''/'' = c)"
    using toLowerCase_slash[of c] by auto
  with Cons show ?case
    by simp
qed

lemma scan_closing_free: "closing_free s \<Longrightarrow> scan True s = ([], True)"
proof (induction s rule: closing_free.induct)
  case (1 s)
  show ?case
  proof (cases "find_match s")
    case None
    then show ?thesis by (simp add: scan_no_match)
  next
    case (Some m)
    obtain i n where m: "m = (i, n)" by (cases m)
    with Some have f: "find_match s = Some (i, n)" by simp
    from "1.prems" f have c: "CHR ''/'' \<notin> set (take n (drop i s))"
      and cf: "closing_free (drop (i + n) s)"
      by (subst (asm) closing_free.simps, simp)+
    from c have t: "(CHR ''/'' \<notin> set (map toLowerCase (take n (drop i s)))) = True"
      using slash_in_lower[of "take n (drop i s)"] by simp
    from "1.IH"[OF f refl cf] show ?thesis
      by (simp only: scan_match[OF f] t) simp
  qed
qed

lemma of_char_canon:
  "(of_char (canonicalize c) :: nat) =
     (if (97 \<le> (of_char c :: nat) \<and> (of_char c :: nat) \<le> 122) \<or>
         (224 \<le> (of_char c :: nat) \<and> (of_char c :: nat) \<le> 254 \<and> (of_char c :: nat) \<noteq> 247)
      then of_char c - 32 else of_char c)"
proof -
  have "(of_char c :: nat) < 256"
    by simp
  then have lt: "(of_char c :: nat) - 32 < 256"
    by arith
  show ?thesis
    by (simp add: canonicalize_def Let_def of_char_of take_bit_eq_mod lt)
qed

text \<open>A character that matches a letter of the tag name is that letter, in lower or upper case.\<close>

lemma letter_cases:
  assumes "p \<in> set ''thinking''" and "canonicalize p = canonicalize c"
  shows "(of_char c :: nat) = of_char p \<or> (of_char c :: nat) = of_char p - 32"
proof -
  define k where "k = (of_char c :: nat)"
  define q where "q = (of_char p :: nat)"
  from assms(1) have q: "q = 116 \<or> q = 104 \<or> q = 105 \<or> q = 110 \<or> q = 107 \<or> q = 103"
    by (auto simp: q_def)
  from assms(2) have "(of_char (canonicalize p) :: nat) = of_char (canonicalize c)"
    by simp
  then have "(if (97 \<le> q \<and> q \<le> 122) \<or> (224 \<le> q \<and> q \<le> 254 \<and> q \<noteq> 247) then q - 32 else q) =
      (if (97 \<le> k \<and> k \<le> 122) \<or> (224 \<le> k \<and> k \<le> 254 \<and> k \<noteq> 247) then k - 32 else k)"
    unfolding of_char_canon k_def q_def .
  with q have "k = q \<or> k = q - 32"
    by (auto split: if_splits)
  then show ?thesis
    unfolding k_def q_def .
qed

lemma letter_plain:
  assumes "p \<in> set ''thinking''" and "canonicalize p = canonicalize c"
  shows "\<not> is_space c" and "c \<noteq> CHR ''/''" and "c \<noteq> CHR ''>''" and "c \<noteq> CHR ''<''"
proof -
  from assms(1) have "97 \<le> (of_char p :: nat) \<and> (of_char p :: nat) \<le> 122"
    by auto
  with letter_cases[OF assms]
  have r: "65 \<le> (of_char c :: nat) \<and> (of_char c :: nat) \<le> 122"
    by arith
  then show "\<not> is_space c"
    by (simp add: is_space_def Let_def)
  from r show "c \<noteq> CHR ''/''" and "c \<noteq> CHR ''>''" and "c \<noteq> CHR ''<''"
    by auto
qed

lemma space_plain:
  assumes "is_space c"
  shows "c \<noteq> CHR ''/''" and "canonicalize CHR ''i'' \<noteq> canonicalize c"
proof -
  from assms have r: "(of_char c :: nat) \<le> 32 \<or> (of_char c :: nat) = 160"
    by (auto simp: is_space_def Let_def)
  then show "c \<noteq> CHR ''/''"
    by auto
  show "canonicalize CHR ''i'' \<noteq> canonicalize c"
  proof
    assume "canonicalize CHR ''i'' = canonicalize c"
    from letter_cases[OF _ this] have "(of_char c :: nat) = 105 \<or> (of_char c :: nat) = 73"
      by simp
    with r show False
      by arith
  qed
qed

lemma gt_plain: "\<not> is_space CHR ''>''" "canonicalize CHR ''i'' \<noteq> canonicalize CHR ''>''"
  by (simp_all add: is_space_def canon_letters)

lemma match_close_spaces: "spaces w \<Longrightarrow> match_close (w @ CHR ''>'' # rest) = Some rest"
proof -
  assume "spaces w"
  then have "dropWhile is_space w = []"
    by (simp add: spaces_def list_all_iff)
  then have "dropWhile is_space (w @ CHR ''>'' # rest) = CHR ''>'' # rest"
    by (simp add: dropWhile_append3 gt_plain del: dropWhile_eq_Nil_conv)
  then show ?thesis
    by (simp add: match_close_def)
qed

lemma no_ing_after_name: "spaces w \<Longrightarrow> \<not> ci_prefix ''ing'' (w @ CHR ''>'' # rest)"
proof (cases w)
  case Nil
  then show ?thesis by (simp add: gt_plain)
next
  case (Cons c cs)
  assume "spaces w"
  with Cons have "is_space c"
    by (simp add: spaces_def)
  from space_plain(2)[OF this] Cons show ?thesis
    by simp
qed

text \<open>The tag name, white space and \<open>>\<close>: the name matches, and the rest is what follows.\<close>

lemma match_name_tag:
  assumes "tag_name kw" and "spaces w"
  shows "match_name (kw @ w @ CHR ''>'' # rest) = Some rest \<and> kw \<noteq> [] \<and>
      \<not> is_space (hd kw) \<and> hd kw \<noteq> CHR ''/'' \<and> CHR ''/'' \<notin> set kw"
proof -
  let ?P = "\<lambda>p c. canonicalize p = canonicalize c"
  from assms(1) consider (long) "list_all2 ?P ''thinking'' kw" | (short) "list_all2 ?P ''think'' kw"
    by (auto simp: tag_name_def)
  then show ?thesis
  proof cases
    case long
    then obtain c1 c2 c3 c4 c5 c6 c7 c8 where kw: "kw = [c1, c2, c3, c4, c5, c6, c7, c8]"
      and c: "?P CHR ''t'' c1" "?P CHR ''h'' c2" "?P CHR ''i'' c3" "?P CHR ''n'' c4"
        "?P CHR ''k'' c5" "?P CHR ''i'' c6" "?P CHR ''n'' c7" "?P CHR ''g'' c8"
      by (auto simp: list_all2_Cons1)
    have m: "match_name (kw @ w @ CHR ''>'' # rest) = Some rest"
      using c by (simp add: kw match_name_def match_close_spaces[OF assms(2)])
    have "\<not> is_space c1" "c1 \<noteq> CHR ''/''" "c2 \<noteq> CHR ''/''" "c3 \<noteq> CHR ''/''" "c4 \<noteq> CHR ''/''"
      "c5 \<noteq> CHR ''/''" "c6 \<noteq> CHR ''/''" "c7 \<noteq> CHR ''/''" "c8 \<noteq> CHR ''/''"
      using c letter_plain(1)[of "CHR ''t''" c1]
        letter_plain(2)[of "CHR ''t''" c1] letter_plain(2)[of "CHR ''h''" c2]
        letter_plain(2)[of "CHR ''i''" c3] letter_plain(2)[of "CHR ''n''" c4]
        letter_plain(2)[of "CHR ''k''" c5] letter_plain(2)[of "CHR ''i''" c6]
        letter_plain(2)[of "CHR ''n''" c7] letter_plain(2)[of "CHR ''g''" c8]
      by simp_all
    with m kw show ?thesis
      by simp
  next
    case short
    then obtain c1 c2 c3 c4 c5 where kw: "kw = [c1, c2, c3, c4, c5]"
      and c: "?P CHR ''t'' c1" "?P CHR ''h'' c2" "?P CHR ''i'' c3" "?P CHR ''n'' c4"
        "?P CHR ''k'' c5"
      by (auto simp: list_all2_Cons1)
    have m: "match_name (kw @ w @ CHR ''>'' # rest) = Some rest"
      using c no_ing_after_name[OF assms(2), of rest]
      by (simp add: kw match_name_def match_close_spaces[OF assms(2)])
    have "\<not> is_space c1" "c1 \<noteq> CHR ''/''" "c2 \<noteq> CHR ''/''" "c3 \<noteq> CHR ''/''" "c4 \<noteq> CHR ''/''"
      "c5 \<noteq> CHR ''/''"
      using c letter_plain(1)[of "CHR ''t''" c1]
        letter_plain(2)[of "CHR ''t''" c1] letter_plain(2)[of "CHR ''h''" c2]
        letter_plain(2)[of "CHR ''i''" c3] letter_plain(2)[of "CHR ''n''" c4]
        letter_plain(2)[of "CHR ''k''" c5]
      by simp_all
    with m kw show ?thesis
      by simp
  qed
qed

lemma dropWhile_spaces_then:
  "spaces w \<Longrightarrow> t \<noteq> [] \<Longrightarrow> \<not> is_space (hd t) \<Longrightarrow> dropWhile is_space (w @ t) = t"
proof -
  assume a: "spaces w" "t \<noteq> []" "\<not> is_space (hd t)"
  then obtain c cs where t: "t = c # cs" and c: "\<not> is_space c"
    by (cases t) auto
  from a(1) have "dropWhile is_space w = []"
    by (simp add: spaces_def list_all_iff)
  with c show ?thesis
    by (simp add: t dropWhile_append3 del: dropWhile_eq_Nil_conv)
qed

lemma spaces_no_slash: "spaces w \<Longrightarrow> CHR ''/'' \<notin> set w"
  using space_plain(1) by (auto simp: spaces_def list_all_iff)

lemma open_tag_match:
  assumes "spaces w1" and "tag_name kw" and "spaces w2"
  shows "match_tag (open_tag w1 kw w2 @ rest) = Some (length (open_tag w1 kw w2))"
    and "CHR ''/'' \<notin> set (open_tag w1 kw w2)"
proof -
  from match_name_tag[OF assms(2) assms(3), of rest]
  have n: "match_name (kw @ w2 @ CHR ''>'' # rest) = Some rest" "kw \<noteq> []"
    "\<not> is_space (hd kw)" "hd kw \<noteq> CHR ''/''" "CHR ''/'' \<notin> set kw"
    by simp_all
  let ?t = "kw @ w2 @ CHR ''>'' # rest"
  have t: "?t \<noteq> []" "\<not> is_space (hd ?t)" "hd ?t \<noteq> CHR ''/''"
    using n(2-4) by simp_all
  have d1: "dropWhile is_space (w1 @ ?t) = ?t"
    using assms(1) t(1) t(2) by (rule dropWhile_spaces_then)
  have d2: "dropWhile is_space ?t = ?t"
    using t by (cases ?t) simp_all
  have "match_body (w1 @ ?t) = Some rest"
    unfolding match_body_def Let_def d1 d2 using t n(1)
    by (cases ?t) simp_all
  then show "match_tag (open_tag w1 kw w2 @ rest) = Some (length (open_tag w1 kw w2))"
    by (simp add: match_tag_def open_tag_def)
  show "CHR ''/'' \<notin> set (open_tag w1 kw w2)"
    using n(5) spaces_no_slash[OF assms(1)] spaces_no_slash[OF assms(3)]
    by (simp add: open_tag_def)
qed

lemma close_tag_match:
  assumes "spaces w1" and "spaces w2" and "tag_name kw" and "spaces w3"
  shows "match_tag (close_tag w1 w2 kw w3 @ rest) = Some (length (close_tag w1 w2 kw w3))"
    and "CHR ''/'' \<in> set (close_tag w1 w2 kw w3)"
proof -
  from match_name_tag[OF assms(3) assms(4), of rest]
  have n: "match_name (kw @ w3 @ CHR ''>'' # rest) = Some rest" "kw \<noteq> []"
    "\<not> is_space (hd kw)" "hd kw \<noteq> CHR ''/''" "CHR ''/'' \<notin> set kw"
    by simp_all
  let ?t = "kw @ w3 @ CHR ''>'' # rest"
  have t: "?t \<noteq> []" "\<not> is_space (hd ?t)"
    using n(2-3) by simp_all
  have ns: "\<not> is_space CHR ''/''"
    by (simp add: is_space_def)
  have d1: "dropWhile is_space (w1 @ CHR ''/'' # w2 @ ?t) = CHR ''/'' # w2 @ ?t"
    using dropWhile_spaces_then[OF assms(1), of "CHR ''/'' # w2 @ ?t"] ns by simp
  have d2: "dropWhile is_space (w2 @ ?t) = ?t"
    using assms(2) t(1) t(2) by (rule dropWhile_spaces_then)
  have "match_body (w1 @ CHR ''/'' # w2 @ ?t) = Some rest"
    unfolding match_body_def Let_def d1 using n(1) by (simp add: d2)
  then show "match_tag (close_tag w1 w2 kw w3 @ rest) = Some (length (close_tag w1 w2 kw w3))"
    by (simp add: match_tag_def close_tag_def)
  show "CHR ''/'' \<in> set (close_tag w1 w2 kw w3)"
    by (simp add: close_tag_def)
qed

lemma find_match_head:
  "match_tag s = Some n \<Longrightarrow> find_match s = Some (0, n)"
  by (cases s) (simp_all add: match_tag_def)

lemma scan_open_tag:
  assumes "spaces w1" and "tag_name kw" and "spaces w2"
  shows "scan t (open_tag w1 kw w2 @ rest) = scan True rest"
proof -
  let ?o = "open_tag w1 kw w2"
  have m: "match_tag (?o @ rest) = Some (length ?o)"
    by (rule open_tag_match(1)[OF assms])
  have ns: "CHR ''/'' \<notin> set ?o"
    by (rule open_tag_match(2)[OF assms])
  have f: "find_match (?o @ rest) = Some (0, length ?o)"
    using m by (rule find_match_head)
  have t: "CHR ''/'' \<notin> toLowerCase ` set ?o"
    using ns slash_in_lower[of ?o] by simp
  show ?thesis
    by (simp add: scan_match[OF f] t)
qed

lemma scan_close_tag:
  assumes "spaces w1" and "spaces w2" and "tag_name kw" and "spaces w3"
  shows "scan t (close_tag w1 w2 kw w3 @ rest) = scan False rest"
proof -
  let ?c = "close_tag w1 w2 kw w3"
  have m: "match_tag (?c @ rest) = Some (length ?c)"
    by (rule close_tag_match(1)[OF assms])
  have sl: "CHR ''/'' \<in> set ?c"
    by (rule close_tag_match(2)[OF assms])
  have f: "find_match (?c @ rest) = Some (0, length ?c)"
    using m by (rule find_match_head)
  have t: "CHR ''/'' \<in> toLowerCase ` set ?c"
    using sl slash_in_lower[of ?c] by simp
  show ?thesis
    by (simp add: scan_match[OF f] t)
qed

lemma open_tag_head: "open_tag w1 kw w2 @ rest = CHR ''<'' # w1 @ kw @ w2 @ CHR ''>'' # rest"
  by (simp add: open_tag_def)

lemma close_tag_head:
  "close_tag w1 w2 kw w3 @ rest = CHR ''<'' # w1 @ CHR ''/'' # w2 @ kw @ w3 @ CHR ''>'' # rest"
  by (simp add: close_tag_def)

lemma strip_excises:
  assumes "spaces w1" "tag_name k1" "spaces w2" "spaces w3" "spaces w4" "tag_name k2" "spaces w5"
    and "find_match a = None" and "closing_free b" and "find_match c = None"
  shows "stripThinkingSegments (a @ open_tag w1 k1 w2 @ b @ close_tag w3 w4 k2 w5 @ c) = a @ c"
proof -
  let ?cl = "close_tag w3 w4 k2 w5 @ c"
  let ?op = "open_tag w1 k1 w2 @ b @ ?cl"
  have 1: "scan True (b @ ?cl) = (c, False)"
    unfolding close_tag_head scan_append_lt
    unfolding close_tag_head[symmetric]
    by (simp add: scan_closing_free[OF assms(9)] scan_close_tag[OF assms(4-7)]
        scan_no_match[OF assms(10)])
  have 2: "scan False ?op = (c, False)"
    by (simp add: scan_open_tag[OF assms(1-3)] 1)
  have "scan False (a @ ?op) = (a @ c, False)"
    unfolding open_tag_head scan_append_lt
    unfolding open_tag_head[symmetric]
    by (simp add: scan_no_match[OF assms(8)] 2)
  then show ?thesis
    by (simp add: stripThinkingSegments_scan)
qed

lemma strip_unclosed:
  assumes "spaces w1" "tag_name k1" "spaces w2"
    and "find_match a = None" and "closing_free b"
  shows "stripThinkingSegments (a @ open_tag w1 k1 w2 @ b) = a"
proof -
  have 2: "scan False (open_tag w1 k1 w2 @ b) = ([], True)"
    by (simp add: scan_open_tag[OF assms(1-3)] scan_closing_free[OF assms(5)])
  have "scan False (a @ open_tag w1 k1 w2 @ b) = (a, True)"
    unfolding open_tag_head scan_append_lt
    unfolding open_tag_head[symmetric]
    by (simp add: scan_no_match[OF assms(4)] 2)
  then show ?thesis
    by (simp add: stripThinkingSegments_scan)
qed

lemma strip_no_marker: "find_match s = None \<Longrightarrow> stripThinkingSegments s = s"
  by (simp add: stripThinkingSegments_scan scan_no_match)

lemma on_message_update_state:
  assumes "update_chunk ev \<noteq> []"
  shows "deltaBuffer (snd (on_message_update h p st (Some ''assistant'') ev)) =
       deltaBuffer st @ update_chunk ev"
    and "re_lastIndex (snd (on_message_update h p st (Some ''assistant'') ev)) =
       snd (stripThinkingSegments_re (re_lastIndex st) (deltaBuffer st @ update_chunk ev))"
    and "lastStreamedAssistant (snd (on_message_update h p st (Some ''assistant'') ev)) =
       (let next = trim (fst (stripThinkingSegments_re (re_lastIndex st)
                                (deltaBuffer st @ update_chunk ev)))
        in if next \<noteq> [] \<and> Some next \<noteq> lastStreamedAssistant st
           then Some next else lastStreamedAssistant st)"
  using assms
  by (auto simp: on_message_update_def Let_def call_onAgentEvent_def call_onPartialReply_def
      record_delivery_def void_call_def split: prod.splits option.splits sink_result.splits)

text \<open>
  Claim C4. The stripper maps \<open><thinking>hidden</thinking>visible\<close> to \<open>visible\<close>. In a text
  that starts outside a thinking span, an opening marker, a text with no closing marker,
  and a closing marker are cut out together, whatever the case of the tag name and the
  white space around it and around the slash; an opening marker followed by no closing
  marker cuts out everything after it; a text with no marker is returned as it is. And
  the two deltas \<open><thi\<close> and \<open>nking>hidden</thinking>visible\<close> of one assistant message leave
  the whole text in the buffer and \<open>visible\<close> as the text last streamed.
\<close>

theorem C4_thinking_segments:
  "stripThinkingSegments ''<thinking>hidden</thinking>visible'' = ''visible'' \<and>
   (spaces w1 \<and> tag_name k1 \<and> spaces w2 \<and> spaces w3 \<and> spaces w4 \<and> tag_name k2 \<and> spaces w5 \<and>
    find_match a = None \<and> closing_free b \<and> find_match c = None
      \<longrightarrow> stripThinkingSegments (a @ open_tag w1 k1 w2 @ b @ close_tag w3 w4 k2 w5 @ c) = a @ c) \<and>
   (spaces w1 \<and> tag_name k1 \<and> spaces w2 \<and> find_match a = None \<and> closing_free b
      \<longrightarrow> stripThinkingSegments (a @ open_tag w1 k1 w2 @ b) = a) \<and>
   (find_match s = None \<longrightarrow> stripThinkingSegments s = s) \<and>
   deltaBuffer (handle_events h p (bridge_init d)
      [MessageUpdate (Some ''assistant'') (text_delta ''<thi'') :: ('n, 'a, 'm) agent_event,
       MessageUpdate (Some ''assistant'') (text_delta ''nking>hidden</thinking>visible'')]) =
     ''<thinking>hidden</thinking>visible'' \<and>
   lastStreamedAssistant (handle_events h p (bridge_init d)
      [MessageUpdate (Some ''assistant'') (text_delta ''<thi'') :: ('n, 'a, 'm) agent_event,
       MessageUpdate (Some ''assistant'') (text_delta ''nking>hidden</thinking>visible'')]) =
     Some ''visible''"
proof -
  have one: "stripThinkingSegments ''<thinking>hidden</thinking>visible'' = ''visible''"
    by code_simp
  let ?d1 = "text_delta ''<thi'' :: 'n json option"
  let ?d2 = "text_delta ''nking>hidden</thinking>visible'' :: 'n json option"
  have c1: "update_chunk ?d1 = ''<thi''"
    and c2: "update_chunk ?d2 = ''nking>hidden</thinking>visible''"
    by (simp_all add: update_chunk_def text_delta_def)
  have s1: "stripThinkingSegments_re 0 ''<thi'' = (''<thi'', 0)"
    by code_simp
  have s2: "stripThinkingSegments_re 0 ''<thinking>hidden</thinking>visible'' = (''visible'', 0)"
    by code_simp
  have t1: "trim ''<thi'' = ''<thi''" and t2: "trim ''visible'' = ''visible''"
    by code_simp+
  let ?st1 = "snd (on_message_update h p (bridge_init d) (Some ''assistant'') ?d1)"
  have b1: "deltaBuffer ?st1 = ''<thi''" and l1: "re_lastIndex ?st1 = 0"
    and a1: "lastStreamedAssistant ?st1 = Some ''<thi''"
    by (simp_all add: on_message_update_state c1 bridge_init_def s1 t1)
  let ?st2 = "snd (on_message_update h p ?st1 (Some ''assistant'') ?d2)"
  have b2: "deltaBuffer ?st2 = ''<thinking>hidden</thinking>visible''"
    and a2: "lastStreamedAssistant ?st2 = Some ''visible''"
    by (simp_all add: on_message_update_state c2 b1 l1 a1 s2 t2)
  have run: "handle_events h p (bridge_init d)
      [MessageUpdate (Some ''assistant'') ?d1 :: ('n, 'a, 'm) agent_event,
       MessageUpdate (Some ''assistant'') ?d2] = ?st2"
    by (simp add: handle_events_def)
  have two: "spaces w1 \<and> tag_name k1 \<and> spaces w2 \<and> spaces w3 \<and> spaces w4 \<and> tag_name k2 \<and>
      spaces w5 \<and> find_match a = None \<and> closing_free b \<and> find_match c = None
      \<longrightarrow> stripThinkingSegments (a @ open_tag w1 k1 w2 @ b @ close_tag w3 w4 k2 w5 @ c) = a @ c"
    by (intro impI) (elim conjE, rule strip_excises, assumption+)
  have three: "spaces w1 \<and> tag_name k1 \<and> spaces w2 \<and> find_match a = None \<and> closing_free b
      \<longrightarrow> stripThinkingSegments (a @ open_tag w1 k1 w2 @ b) = a"
    by (intro impI) (elim conjE, rule strip_unclosed, assumption+)
  have four: "find_match s = None \<longrightarrow> stripThinkingSegments s = s"
    by (intro impI) (rule strip_no_marker)
  show ?thesis
    unfolding run
    by (intro conjI) (rule one two three four b2 a2)+
qed

text \<open>
  Witness for C4: the markers \<open>< THINKING>\<close> and \<open></ Think >\<close> around a text that holds a
  further opening marker, and a text with a tag that is no marker.
\<close>

theorem C4_witness:
  "stripThinkingSegments
     (''a'' @ open_tag '' '' ''THINKING'' [] @ ''x<think>y'' @ close_tag [] '' '' ''Think'' '' '' @ ''c'')
     = ''ac'' \<and>
   stripThinkingSegments (''a'' @ open_tag '' '' ''THINKING'' [] @ ''x<think>y'') = ''a'' \<and>
   stripThinkingSegments ''plain <thinkin> text'' = ''plain <thinkin> text'' \<and>
   lastStreamedAssistant (handle_events ex_helpers (ex_params throwing_sink) (bridge_init [])
      [MessageUpdate (Some ''assistant'') (text_delta ''<thi'') :: (nat, unit, string) agent_event,
       MessageUpdate (Some ''assistant'') (text_delta ''nking>hidden</thinking>visible'')]) =
     Some ''visible''"
proof -
  have sp: "spaces '' ''" "spaces []"
    by code_simp+
  have tn: "tag_name ''THINKING''" "tag_name ''Think''"
    by code_simp+
  have fa: "find_match ''a'' = None" "find_match ''c'' = None"
    "find_match ''plain <thinkin> text'' = None"
    by code_simp+
  have cf: "closing_free ''x<think>y''"
    by code_simp
  note T = C4_thinking_segments[of "'' ''" "''THINKING''" "[]" "[]" "'' ''" "''Think''" "'' ''"
      "''a''" "''x<think>y''" "''c''" "''plain <thinkin> text''"
      ex_helpers "ex_params throwing_sink" "[]"]
  have a2: "stripThinkingSegments
     (''a'' @ open_tag '' '' ''THINKING'' [] @ ''x<think>y'' @ close_tag [] '' '' ''Think'' '' '' @ ''c'')
     = ''a'' @ ''c''"
    using T[THEN conjunct2, THEN conjunct1] sp tn fa cf by blast
  have a3: "stripThinkingSegments (''a'' @ open_tag '' '' ''THINKING'' [] @ ''x<think>y'') = ''a''"
    using T[THEN conjunct2, THEN conjunct2, THEN conjunct1] sp tn fa cf by blast
  have a4: "stripThinkingSegments ''plain <thinkin> text'' = ''plain <thinkin> text''"
    using T[THEN conjunct2, THEN conjunct2, THEN conjunct2, THEN conjunct1] fa by blast
  have a6: "lastStreamedAssistant (handle_events ex_helpers (ex_params throwing_sink) (bridge_init [])
      [MessageUpdate (Some ''assistant'') (text_delta ''<thi'') :: (nat, unit, string) agent_event,
       MessageUpdate (Some ''assistant'') (text_delta ''nking>hidden</thinking>visible'')]) =
     Some ''visible''"
    by (rule T[THEN conjunct2, THEN conjunct2, THEN conjunct2, THEN conjunct2, THEN conjunct2])
  from a2 a3 a4 a6 show ?thesis
    by simp
qed

lemma deliver_tool_result_state:
  "toolMetas (snd (deliver_tool_result h p st toolName meta)) = toolMetas st"
  "toolMetaById (snd (deliver_tool_result h p st toolName meta)) = toolMetaById st"
  "toolDebouncer (snd (deliver_tool_result h p st toolName meta)) = toolDebouncer st"
  "fst (deliver_tool_result h p st toolName meta) = None"
  by (simp_all add: deliver_tool_result_def Let_def record_delivery_def try_catch_ignore_def
      void_call_def split: option.splits prod.splits sink_result.splits)

text \<open>
  A sink that throws is as good as one that returns: the exception is caught where the
  sink is called.
\<close>

lemma deliver_tool_result_sink:
  assumes "onToolResult p = Some sink" and "\<And>payload e. sink payload \<noteq> Rejects e"
  shows "deliver_tool_result h p st toolName meta =
     deliver_tool_result h (p\<lparr>onToolResult := Some (\<lambda>payload. Returns)\<rparr>) st toolName meta"
proof -
  have vc: "snd (void_call (sink payload) s) = s"
    for payload and s :: "('a, 'd) bridge"
    using assms(2)[of payload]
    by (cases "sink payload") (auto simp: void_call_def)
  have vr: "snd (void_call Returns s) = s"
    for s :: "('a, 'd) bridge"
    by (simp add: void_call_def)
  have tc: "try_catch_ignore r = None" for r
    by (cases r) (simp_all add: try_catch_ignore_def)
  show ?thesis
    using assms(1)
    by (simp add: deliver_tool_result_def Let_def vc vr tc split_def split: option.splits)
qed

text \<open>
  When the \<open>onToolResult\<close> sink throws during a \<open>tool_execution_end\<close> event, or returns,
  the handler returns what it returns with a sink that returns, exception and state alike;
  the tool's meta is appended to \<open>toolMetas\<close>, the meta registry is as before, and the pair
  is pushed to the debouncer.
\<close>

lemma thrown_sink_failure_discarded:
  assumes "onToolResult p = Some sink" and "\<And>payload e. sink payload \<noteq> Rejects e"
  shows "handle_event h p st (ToolExecutionEnd toolName toolCallId isError) =
       handle_event h (p\<lparr>onToolResult := Some (\<lambda>payload. Returns)\<rparr>) st
         (ToolExecutionEnd toolName toolCallId isError) \<and>
     toolMetas (snd (handle_event h p st (ToolExecutionEnd toolName toolCallId isError))) =
       toolMetas st @
       [(toolName, case toolMetaById st toolCallId of Some m \<Rightarrow> m | None \<Rightarrow> None)] \<and>
     toolMetaById (snd (handle_event h p st (ToolExecutionEnd toolName toolCallId isError))) =
       toolMetaById st \<and>
     toolDebouncer (snd (handle_event h p st (ToolExecutionEnd toolName toolCallId isError))) =
       debouncer_push h toolName
         (case toolMetaById st toolCallId of Some m \<Rightarrow> m | None \<Rightarrow> None) (toolDebouncer st)"
proof -
  let ?meta = "case toolMetaById st toolCallId of Some m \<Rightarrow> m | None \<Rightarrow> None"
  let ?p' = "p\<lparr>onToolResult := Some (\<lambda>payload. Returns)\<rparr>"
  have ag: "call_onAgentEvent ?p' stream data s = call_onAgentEvent p stream data s"
    for stream data and s :: "('a, 'b) bridge"
    by (simp add: call_onAgentEvent_def)
  have del: "deliver_tool_result h p s toolName m = deliver_tool_result h ?p' s toolName m"
    for s :: "('a, 'b) bridge" and m
    using assms by (rule deliver_tool_result_sink)
  have eq: "handle_event h p st (ToolExecutionEnd toolName toolCallId isError) =
       handle_event h ?p' st (ToolExecutionEnd toolName toolCallId isError)"
    by (simp only: handle_event.simps on_tool_execution_end_def Let_def ag del) simp
  have st: "toolMetas (snd (handle_event h p st (ToolExecutionEnd toolName toolCallId isError))) =
       toolMetas st @ [(toolName, ?meta)]"
    "toolMetaById (snd (handle_event h p st (ToolExecutionEnd toolName toolCallId isError))) =
       toolMetaById st"
    "toolDebouncer (snd (handle_event h p st (ToolExecutionEnd toolName toolCallId isError))) =
       debouncer_push h toolName ?meta (toolDebouncer st)"
    by (simp_all add: on_tool_execution_end_def Let_def call_onAgentEvent_def
        record_delivery_def void_call_def deliver_tool_result_state
        split: prod.splits option.splits sink_result.splits)
  from eq st show ?thesis
    by blast
qed

text \<open>
  The whole of a verbose delivery, for a telemetry sink that returns: the handler
  completes, the meta is collected and pushed to the debouncer, and \<open>emitAgentEvent\<close>,
  \<open>onAgentEvent\<close> and \<open>onToolResult\<close> are called once each, in this order. What the tool
  result sink throws leaves no trace. The rejection of a promise it returns is left
  unhandled.
\<close>

lemma verbose_tool_result_delivery:
  assumes emit: "case shouldEmitToolResult p of Some g \<Rightarrow> g () | None \<Rightarrow> verboseLevel p = Some On"
    and sink: "onToolResult p = Some sink"
    and telemetry: "onAgentEvent p = Some f"
      "f ''tool'' (ToolEnd toolName toolCallId meta isError) = Returns"
    and meta: "meta = (case toolMetaById st toolCallId of Some m \<Rightarrow> m | None \<Rightarrow> None)"
    and agg: "splitMediaFromOutput h
        (formatToolAggregate h (Some toolName)
           (case meta of None \<Rightarrow> None | Some m \<Rightarrow> if m \<noteq> [] then Some [m] else None)) =
        (cleanedText, mediaUrls)"
    and nonempty: "cleanedText \<noteq> [] \<or> (case mediaUrls of None \<Rightarrow> False | Some us \<Rightarrow> length us > 0)"
  shows "handle_event h p st (ToolExecutionEnd toolName toolCallId isError) =
     (None,
      st\<lparr>toolMetas := toolMetas st @ [(toolName, meta)],
         toolDebouncer := debouncer_push h toolName meta (toolDebouncer st),
         deliveries := deliveries st @
           [EmitAgentEvent (runId p) ''tool'' (ToolEnd toolName toolCallId meta isError),
            ToAgentEvent ''tool'' (ToolEnd toolName toolCallId meta isError),
            ToToolResult (cleanedText, nonempty_urls mediaUrls)],
         unhandled := unhandled st @
           (case sink (cleanedText, nonempty_urls mediaUrls) of
              Rejects e \<Rightarrow> [e]
            | _ \<Rightarrow> [])\<rparr>)"
proof -
  have m: "(case toolMetaById st toolCallId of Some m \<Rightarrow> m | None \<Rightarrow> None) = meta"
    using meta by simp
  show ?thesis
    using emit sink telemetry agg nonempty
    by (cases "sink (cleanedText, nonempty_urls mediaUrls)")
       (simp_all add: on_tool_execution_end_def deliver_tool_result_def call_onAgentEvent_def
          record_delivery_def void_call_def try_catch_ignore_def Let_def m)
qed

text \<open>
  Claim C9 does not hold of the code. The sink is typed \<^verbatim>\<open>void | Promise<void>\<close> and is
  called as \<^verbatim>\<open>void params.onToolResult(...)\<close> inside the \<^verbatim>\<open>try\<close> block, whose comment
  reads "ignore tool result delivery failures". With verbose delivery on and a sink that
  throws, the handler does what it does with a sink that returns: it completes, and the
  state and the calls of \<open>emitAgentEvent\<close>, \<open>onAgentEvent\<close> and \<open>onToolResult\<close> are the
  same. With an async sink that fails, the promise it returns is dropped and its
  rejection is not discarded: it is left unhandled.
\<close>

theorem C9_rejected_delivery_not_discarded:
  "handle_event ex_helpers (ex_params rejecting_sink) (bridge_init [])
      (ToolExecutionEnd ''Read'' ''tu-1'' False :: (nat, unit, string) agent_event) =
     (None,
      \<lparr>assistantTexts = [], toolMetas = [(''Read'', None)], toolMetaById = Map.empty,
       deltaBuffer = [], lastStreamedAssistant = None, toolDebouncer = [(''Read'', None)],
       re_lastIndex = 0,
       deliveries =
         [EmitAgentEvent ''run-1'' ''tool'' (ToolEnd ''Read'' ''tu-1'' None False),
          ToAgentEvent ''tool'' (ToolEnd ''Read'' ''tu-1'' None False),
          ToToolResult (''Read'', None)],
       unhandled = [Thrown ''sink failed'']\<rparr>) \<and>
   handle_event ex_helpers (ex_params throwing_sink) (bridge_init [])
      (ToolExecutionEnd ''Read'' ''tu-1'' False :: (nat, unit, string) agent_event) =
     (None,
      \<lparr>assistantTexts = [], toolMetas = [(''Read'', None)], toolMetaById = Map.empty,
       deltaBuffer = [], lastStreamedAssistant = None, toolDebouncer = [(''Read'', None)],
       re_lastIndex = 0,
       deliveries =
         [EmitAgentEvent ''run-1'' ''tool'' (ToolEnd ''Read'' ''tu-1'' None False),
          ToAgentEvent ''tool'' (ToolEnd ''Read'' ''tu-1'' None False),
          ToToolResult (''Read'', None)],
       unhandled = []\<rparr>) \<and>
   handle_event ex_helpers (ex_params throwing_sink) (bridge_init [])
      (ToolExecutionEnd ''Read'' ''tu-1'' False :: (nat, unit, string) agent_event) =
   handle_event ex_helpers (ex_params returning_sink) (bridge_init [])
      (ToolExecutionEnd ''Read'' ''tu-1'' False)"
  by (simp add: on_tool_execution_end_def deliver_tool_result_def call_onAgentEvent_def
      record_delivery_def void_call_def try_catch_ignore_def nonempty_urls_def Let_def
      ex_params_def ex_helpers_def bridge_init_def
      returning_sink_def throwing_sink_def rejecting_sink_def)

end
